theory Spec2Isabelle
  imports Main "HOL-Library.Multiset"
begin

section \<open>Active Object: Future, MethodRequest, Scheduler, Proxy\<close>

text \<open>
  A shallow embedding of \<^verbatim>\<open>src/behavioral/active_object.py\<close>. Python objects live in
  explicit stores and are named by references (indices into the store); a method of a
  class takes the store and returns the updated one. The standard library's
  \<^verbatim>\<open>queue.PriorityQueue\<close> keeps its items in a list managed by \<^verbatim>\<open>heapq\<close>; both are
  embedded from their Python sources (\<^verbatim>\<open>heapq.py\<close>, \<^verbatim>\<open>queue.py\<close>), because the order in
  which the worker takes requests is decided there.
\<close>

subsection \<open>Values, exceptions, objects\<close>

type_synonym ref = nat
type_synonym tid = nat

text \<open>
  The Python values the model distinguishes. Only the difference between \<^verbatim>\<open>None\<close> and
  everything else matters to \<^verbatim>\<open>Future\<close>; integers and strings are what the example passes
  to and gets from \<^verbatim>\<open>TransactionProcessor\<close>.
\<close>

datatype pyval = PyNone | PyInt int | PyStr string

datatype exc = IndexError | TypeError | ValueError | Exc string

text \<open>
  \<^verbatim>\<open>MethodRequest\<close>: the six attributes assigned in \<^verbatim>\<open>__init__\<close>. The bound operation is
  a callable; it receives the servant, the positional and the keyword arguments, may
  read and change the environment \<open>'e\<close> (the servant objects, standard output, the clock:
  all state outside the four classes), and either returns a value or raises. The attribute
  \<^verbatim>\<open>method\<close> is the field \<open>method_fn\<close>.
\<close>

record 'e method_request =
  servant :: ref   method_fn :: "ref \<Rightarrow> pyval list \<Rightarrow> (string \<times> pyval) list \<Rightarrow> 'e \<Rightarrow> (exc + pyval) \<times> 'e"
  args :: "pyval list"
  kwargs :: "(string \<times> pyval) list"
  priority :: int
  future :: ref

text \<open>
  A client thread, as far as \<^verbatim>\<open>Future.get_result\<close> is concerned: outside the call, blocked
  in \<^verbatim>\<open>self._condition.wait()\<close> of a Future, woken by \<^verbatim>\<open>notify_all\<close> but not yet running
  again, or returned from \<^verbatim>\<open>get_result\<close> with a value.
\<close>

datatype thread_state = Running | Waiting ref | Notified ref | Returned pyval

text \<open>The Scheduler's thread: inside \<^verbatim>\<open>run\<close>, or terminated by an exception that left \<^verbatim>\<open>run\<close>.\<close>

datatype worker_state = Alive | Dead exc

text \<open>
  The state of the program: the environment of the bound operations; the \<^verbatim>\<open>_result\<close> of
  every Future (a Future is its index); every MethodRequest (likewise); the list
  \<^verbatim>\<open>activation_queue.queue\<close> of the one Scheduler, holding references to requests; the
  worker thread; the client threads. \<open>executed\<close> is a history variable that is not in
  the source: the requests on which the worker has called \<^verbatim>\<open>execute()\<close>, in order.
\<close>

record 'e world =
  env :: 'e
  futures :: "pyval list"
  requests :: "'e method_request list"
  queue :: "ref list"
  worker :: worker_state
  threads :: "tid \<Rightarrow> thread_state"
  executed :: "ref list"

definition Scheduler_init :: "'e \<Rightarrow> 'e world" where
  \<comment> \<open>A program with one freshly started Scheduler and no Future or MethodRequest yet.\<close>
  "Scheduler_init e =
     \<lparr>env = e, futures = [], requests = [], queue = [], worker = Alive,
      threads = (\<lambda>t. Running), executed = []\<rparr>"

subsection \<open>heapq\<close>

text \<open>
  \<^verbatim>\<open>heapq._siftdown\<close>, \<^verbatim>\<open>heapq._siftup\<close>, \<^verbatim>\<open>heapq.heappush\<close>, \<^verbatim>\<open>heapq.heappop\<close>. The only
  comparison they make is \<^verbatim>\<open>a < b\<close>, here the parameter \<open>lt\<close>. Each loop is a recursive
  function over the loop variables; the assignment \<^verbatim>\<open>heap[pos] = newitem\<close> that follows the
  loop of \<^verbatim>\<open>_siftdown\<close> is made where the loop is left.
\<close>

function siftdown_loop :: "('a \<Rightarrow> 'a \<Rightarrow> bool) \<Rightarrow> 'a \<Rightarrow> nat \<Rightarrow> 'a list \<Rightarrow> nat \<Rightarrow> 'a list" where
  "siftdown_loop lt newitem startpos heap pos =
     (if pos > startpos then
        (let parentpos = (pos - 1) div 2;
             parent = heap ! parentpos
         in if lt newitem parent
            then siftdown_loop lt newitem startpos (heap[pos := parent]) parentpos
            else heap[pos := newitem])
      else heap[pos := newitem])"
  by pat_completeness auto
termination
  by (relation "measure (\<lambda>(lt, newitem, startpos, heap, pos). pos)") auto

definition siftdown :: "('a \<Rightarrow> 'a \<Rightarrow> bool) \<Rightarrow> 'a list \<Rightarrow> nat \<Rightarrow> nat \<Rightarrow> 'a list" where
  "siftdown lt heap startpos pos = siftdown_loop lt (heap ! pos) startpos heap pos"

function siftup_loop :: "('a \<Rightarrow> 'a \<Rightarrow> bool) \<Rightarrow> nat \<Rightarrow> 'a list \<Rightarrow> nat \<Rightarrow> 'a list \<times> nat" where
  "siftup_loop lt endpos heap pos =
     (let childpos = 2 * pos + 1 in
      if childpos < endpos then
        (let rightpos = childpos + 1;
             childpos = (if rightpos < endpos \<and> \<not> lt (heap ! childpos) (heap ! rightpos)
                         then rightpos else childpos)
         in siftup_loop lt endpos (heap[pos := heap ! childpos]) childpos)
      else (heap, pos))"
  by pat_completeness auto
termination
  by (relation "measure (\<lambda>(lt, endpos, heap, pos). endpos - pos)") (auto simp: Let_def)

definition siftup :: "('a \<Rightarrow> 'a \<Rightarrow> bool) \<Rightarrow> 'a list \<Rightarrow> nat \<Rightarrow> 'a list" where
  "siftup lt heap pos =
     (let endpos = length heap;
          startpos = pos;
          newitem = heap ! pos;
          (heap', pos') = siftup_loop lt endpos heap pos
      in siftdown lt (heap'[pos' := newitem]) startpos pos')"

definition heappush :: "('a \<Rightarrow> 'a \<Rightarrow> bool) \<Rightarrow> 'a list \<Rightarrow> 'a \<Rightarrow> 'a list" where
  "heappush lt heap item =
     (let heap = heap @ [item] in siftdown lt heap 0 (length heap - 1))"

definition heappop :: "('a \<Rightarrow> 'a \<Rightarrow> bool) \<Rightarrow> 'a list \<Rightarrow> exc + ('a \<times> 'a list)" where
  \<comment> \<open>\<^verbatim>\<open>heap.pop()\<close> raises IndexError on the empty list.\<close>
  "heappop lt heap =
     (if heap = [] then Inl IndexError
      else (let lastelt = last heap;
                heap = butlast heap
            in if heap \<noteq> []
               then (let returnitem = heap ! 0;
                         heap = heap[0 := lastelt]
                     in Inr (returnitem, siftup lt heap 0))
               else Inr (lastelt, heap)))"

subsection \<open>Future\<close>

definition Future_init :: "'e world \<Rightarrow> ref \<times> 'e world" where
  \<comment> \<open>\<^verbatim>\<open>Future()\<close>: a new object with \<^verbatim>\<open>_result = None\<close> and a condition nobody waits on.\<close>
  "Future_init w = (length (futures w), w\<lparr>futures := futures w @ [PyNone]\<rparr>)"

definition Future_set_result :: "ref \<Rightarrow> pyval \<Rightarrow> 'e world \<Rightarrow> 'e world" where
  \<comment> \<open>Under the lock: assign \<^verbatim>\<open>_result\<close>, then \<^verbatim>\<open>notify_all\<close> wakes every thread waiting on
      this Future's condition.\<close>
  "Future_set_result self result w =
     w\<lparr>futures := (futures w)[self := result],
       threads := (\<lambda>t. if threads w t = Waiting self then Notified self else threads w t)\<rparr>"

definition Future_get_result :: "tid \<Rightarrow> ref \<Rightarrow> 'e world \<Rightarrow> 'e world" where
  \<comment> \<open>Thread \<open>t\<close> holds the lock and tests the loop condition: it waits (releasing the lock)
      while \<^verbatim>\<open>_result is None\<close>, and returns \<^verbatim>\<open>_result\<close> otherwise.\<close>
  "Future_get_result t self w =
     (if futures w ! self = PyNone
      then w\<lparr>threads := (threads w)(t := Waiting self)\<rparr>
      else w\<lparr>threads := (threads w)(t := Returned (futures w ! self))\<rparr>)"

definition Future_wakeup :: "tid \<Rightarrow> 'e world \<Rightarrow> 'e world" where
  \<comment> \<open>A notified thread gets the lock back, \<^verbatim>\<open>wait()\<close> returns, and the loop condition of
      \<^verbatim>\<open>get_result\<close> is tested again.\<close>
  "Future_wakeup t w =
     (case threads w t of Notified self \<Rightarrow> Future_get_result t self w | _ \<Rightarrow> w)"

subsection \<open>MethodRequest\<close>

definition MethodRequest_init ::
  "ref \<Rightarrow> (ref \<Rightarrow> pyval list \<Rightarrow> (string \<times> pyval) list \<Rightarrow> 'e \<Rightarrow> (exc + pyval) \<times> 'e) \<Rightarrow>
   pyval list \<Rightarrow> (string \<times> pyval) list \<Rightarrow> int \<Rightarrow> 'e world \<Rightarrow> ref \<times> 'e world" where
  \<comment> \<open>\<^verbatim>\<open>__init__\<close>; the caller supplies the defaults \<^verbatim>\<open>args=()\<close>, \<^verbatim>\<open>kwargs={}\<close>, \<^verbatim>\<open>priority=0\<close>.
      The new request gets a new Future.\<close>
  "MethodRequest_init servant' method' args' kwargs' priority' w =
     (let (f, w) = Future_init w;
          self = length (requests w)
      in (self, w\<lparr>requests := requests w @
                    [\<lparr>servant = servant', method_fn = method', args = args', kwargs = kwargs',
                      priority = priority', future = f\<rparr>]\<rparr>))"

definition MethodRequest_execute :: "ref \<Rightarrow> 'e world \<Rightarrow> (exc + unit) \<times> 'e world" where
  \<comment> \<open>An exception of the bound operation leaves \<^verbatim>\<open>execute\<close> before \<^verbatim>\<open>set_result\<close> is reached.\<close>
  "MethodRequest_execute self w =
     (let r = requests w ! self in
      case method_fn r (servant r) (args r) (kwargs r) (env w) of
        (Inl e, env') \<Rightarrow> (Inl e, w\<lparr>env := env'\<rparr>)
      | (Inr result, env') \<Rightarrow> (Inr (), Future_set_result (future r) result (w\<lparr>env := env'\<rparr>)))"

definition MethodRequest_lt :: "'e method_request list \<Rightarrow> ref \<Rightarrow> ref \<Rightarrow> bool" where
  \<comment> \<open>\<^verbatim>\<open>__lt__\<close> of the request objects behind two references.\<close>
  "MethodRequest_lt rs self other = (priority (rs ! self) > priority (rs ! other))"

subsection \<open>Scheduler\<close>

definition Scheduler_enqueue :: "ref \<Rightarrow> 'e world \<Rightarrow> 'e world" where
  \<comment> \<open>\<^verbatim>\<open>PriorityQueue.put\<close> with \<^verbatim>\<open>maxsize = 0\<close>: never waits, calls \<^verbatim>\<open>heappush\<close>.\<close>
  "Scheduler_enqueue method_request w =
     w\<lparr>queue := heappush (MethodRequest_lt (requests w)) (queue w) method_request\<rparr>"

definition Scheduler_run_iter :: "'e world \<Rightarrow> 'e world" where
  \<comment> \<open>One iteration of \<^verbatim>\<open>while True\<close>. A terminated thread does nothing. \<^verbatim>\<open>PriorityQueue.get\<close>
      waits while the queue is empty (the state stays as it is), and calls \<^verbatim>\<open>heappop\<close>
      otherwise. An exception that leaves \<^verbatim>\<open>execute\<close> leaves \<^verbatim>\<open>run\<close>: the thread ends.\<close>
  "Scheduler_run_iter w =
     (case worker w of
        Dead e \<Rightarrow> w
      | Alive \<Rightarrow>
          if queue w = [] then w
          else (case heappop (MethodRequest_lt (requests w)) (queue w) of
                  Inl e \<Rightarrow> w\<lparr>worker := Dead e\<rparr>
                | Inr (method_request, q) \<Rightarrow>
                    (case MethodRequest_execute method_request
                            (w\<lparr>queue := q, executed := executed w @ [method_request]\<rparr>) of
                       (Inl e, w') \<Rightarrow> w'\<lparr>worker := Dead e\<rparr>
                     | (Inr u, w') \<Rightarrow> w')))"

fun Scheduler_run :: "nat \<Rightarrow> 'e world \<Rightarrow> 'e world" where
  \<comment> \<open>The first \<open>n\<close> iterations of the loop of \<^verbatim>\<open>run\<close>, nothing else running in between.\<close>
  "Scheduler_run 0 w = w"
| "Scheduler_run (Suc n) w = Scheduler_run n (Scheduler_run_iter w)"

subsection \<open>TransactionProcessor and Proxy\<close>

text \<open>What \<^verbatim>\<open>TransactionProcessor.process_transaction\<close> touches: the lines printed and the
  seconds slept.\<close>

record env =
  stdout :: "string list"
  slept :: nat

definition digit :: "nat \<Rightarrow> char" where
  "digit d = ''0123456789'' ! d"

function digits :: "nat \<Rightarrow> string" where
  "digits n = (if n < 10 then [digit n] else digits (n div 10) @ [digit (n mod 10)])"
  by pat_completeness auto
termination
  by (relation "measure (\<lambda>n. n)") auto

definition int_max_str_digits :: nat where
  \<comment> \<open>CPython's default limit on the digits of an integer converted to a string
      (\<^verbatim>\<open>sys.int_info.default_max_str_digits\<close>); the sign is not counted.\<close>
  "int_max_str_digits = 4300"

fun py_str :: "pyval \<Rightarrow> exc + string" where
  \<comment> \<open>What an f-string puts in place of \<^verbatim>\<open>{x}\<close>. For an integer of more digits than the
      limit the conversion raises ValueError.\<close>
  "py_str PyNone = Inr ''None''"
| "py_str (PyInt i) =
     (let ds = digits (nat \<bar>i\<bar>) in
      if length ds > int_max_str_digits then Inl ValueError
      else Inr (if i < 0 then ''-'' @ ds else ds))"
| "py_str (PyStr s) = Inr s"

fun process_transaction_params :: "pyval list \<Rightarrow> (string \<times> pyval) list \<Rightarrow> (pyval \<times> pyval) option" where
  \<comment> \<open>Python's binding of \<^verbatim>\<open>*args, **kwargs\<close> to the parameters \<^verbatim>\<open>transaction_id, amount\<close>;
      \<open>None\<close> where the call raises TypeError. A dict has each key once.\<close>
  "process_transaction_params [t, a] [] = Some (t, a)"
| "process_transaction_params [t] [(k, a)] = (if k = ''amount'' then Some (t, a) else None)"
| "process_transaction_params [] [(k1, v1), (k2, v2)] =
     (if k1 = ''transaction_id'' \<and> k2 = ''amount'' then Some (v1, v2)
      else if k1 = ''amount'' \<and> k2 = ''transaction_id'' then Some (v2, v1)
      else None)"
| "process_transaction_params as ks = None"

definition TransactionProcessor_process_transaction ::
  "ref \<Rightarrow> pyval list \<Rightarrow> (string \<times> pyval) list \<Rightarrow> env \<Rightarrow> (exc + pyval) \<times> env" where
  \<comment> \<open>The first f-string is built before \<^verbatim>\<open>print\<close> is called: when a conversion raises,
      nothing is printed and nothing slept. The second f-string converts the same values.\<close>
  "TransactionProcessor_process_transaction self as ks e =
     (case process_transaction_params as ks of
        None \<Rightarrow> (Inl TypeError, e)
      | Some (transaction_id, amount) \<Rightarrow>
          (case py_str transaction_id of
             Inl x \<Rightarrow> (Inl x, e)
           | Inr tid_str \<Rightarrow>
               (case py_str amount of
                  Inl x \<Rightarrow> (Inl x, e)
                | Inr amount_str \<Rightarrow>
                    (Inr (PyStr (''Transaction '' @ tid_str @ '' completed for $'' @
                                 amount_str @ ''.'')),
                     e\<lparr>stdout := stdout e @
                          [''Processing transaction '' @ tid_str @ '' for amount $'' @
                           amount_str @ ''...''],
                       slept := slept e + 2\<rparr>))))"

text \<open>A Proxy holds its servant; its scheduler is the one Scheduler of the state.\<close>

record proxy =
  proxy_servant :: ref

definition Proxy_process_transaction ::
  "proxy \<Rightarrow> pyval \<Rightarrow> pyval \<Rightarrow> int \<Rightarrow> env world \<Rightarrow> ref \<times> env world" where
  "Proxy_process_transaction self transaction_id amount priority' w =
     (let (method_request, w) =
            MethodRequest_init (proxy_servant self) TransactionProcessor_process_transaction
              [transaction_id, amount] [] priority' w;
          w = Scheduler_enqueue method_request w
      in (future (requests w ! method_request), w))"

subsection \<open>Interleavings\<close>

text \<open>
  What can happen to the state, one step at a time: a client creates a MethodRequest and
  enqueues it (as \<^verbatim>\<open>Proxy.process_transaction\<close> does, here for any servant, operation,
  arguments and priority); the worker makes one iteration of its loop; a client thread
  calls \<^verbatim>\<open>get_result\<close> on a Future; a notified thread runs again. Each step is atomic: the
  queue and every Future are only touched under their locks.
\<close>

datatype 'e event =
    Submit ref "ref \<Rightarrow> pyval list \<Rightarrow> (string \<times> pyval) list \<Rightarrow> 'e \<Rightarrow> (exc + pyval) \<times> 'e"
      "pyval list" "(string \<times> pyval) list" int
  | Iterate
  | Get tid ref
  | Wakeup tid

fun step :: "'e event \<Rightarrow> 'e world \<Rightarrow> 'e world" where
  "step (Submit s m as ks pr) w =
     (let (method_request, w) = MethodRequest_init s m as ks pr w
      in Scheduler_enqueue method_request w)"
| "step Iterate w = Scheduler_run_iter w"
| "step (Get t f) w = Future_get_result t f w"
| "step (Wakeup t) w = Future_wakeup t w"

subsection \<open>Notions used by the properties\<close>

definition priority_of :: "'e world \<Rightarrow> ref \<Rightarrow> int" where
  "priority_of w r = priority (requests w ! r)"

definition executed_before :: "ref list \<Rightarrow> ref \<Rightarrow> ref \<Rightarrow> bool" where
  \<comment> \<open>In the order of execution \<open>ex\<close>, \<open>a\<close> comes before \<open>b\<close>.\<close>
  "executed_before ex a b = (\<exists>j < length ex. \<exists>i < j. ex ! i = a \<and> ex ! j = b)"

definition newly_executed :: "'e world \<Rightarrow> 'e world \<Rightarrow> ref list" where
  \<comment> \<open>What the worker has executed between the states \<open>w\<close> and \<open>w'\<close>.\<close>
  "newly_executed w w' = drop (length (executed w)) (executed w')"

definition heap_ok :: "('a \<Rightarrow> int) \<Rightarrow> 'a list \<Rightarrow> bool" where
  \<comment> \<open>The heap invariant of \<^verbatim>\<open>heapq\<close> for a comparison by descending key: no item has a
      larger key than its parent.\<close>
  "heap_ok k h = (\<forall>i. 0 < i \<and> i < length h \<longrightarrow> k (h ! i) \<le> k (h ! ((i - 1) div 2)))"

definition inv_down :: "('a \<Rightarrow> int) \<Rightarrow> 'a list \<Rightarrow> nat \<Rightarrow> 'a \<Rightarrow> bool" where
  \<comment> \<open>Loop invariant of \<^verbatim>\<open>_siftdown\<close>: with \<open>x\<close> put at \<open>pos\<close>, only the edge from \<open>pos\<close> to its
      parent may be out of order, and the children of \<open>pos\<close> are in order with its parent.\<close>
  "inv_down k h pos x =
     (pos < length h \<and>
      (\<forall>i. 0 < i \<and> i < length h \<and> i \<noteq> pos \<longrightarrow>
           k (h[pos := x] ! i) \<le> k (h[pos := x] ! ((i - 1) div 2))) \<and>
      (\<forall>i. 0 < i \<and> i < length h \<and> (i - 1) div 2 = pos \<and> 0 < pos \<longrightarrow>
           k (h ! i) \<le> k (h ! ((pos - 1) div 2))))"

definition inv_up :: "('a \<Rightarrow> int) \<Rightarrow> 'a list \<Rightarrow> nat \<Rightarrow> bool" where
  \<comment> \<open>Loop invariant of \<^verbatim>\<open>_siftup\<close>: all edges that do not touch the hole at \<open>pos\<close> are in
      order, and the children of \<open>pos\<close> are in order with its parent.\<close>
  "inv_up k h pos =
     (pos < length h \<and>
      (\<forall>i. 0 < i \<and> i < length h \<and> i \<noteq> pos \<and> (i - 1) div 2 \<noteq> pos \<longrightarrow>
           k (h ! i) \<le> k (h ! ((i - 1) div 2))) \<and>
      (\<forall>i. 0 < i \<and> i < length h \<and> (i - 1) div 2 = pos \<and> 0 < pos \<longrightarrow>
           k (h ! i) \<le> k (h ! ((pos - 1) div 2))))"

definition submit :: "proxy \<Rightarrow> pyval \<Rightarrow> pyval \<Rightarrow> int \<Rightarrow> env world \<Rightarrow> env world" where
  \<comment> \<open>The state after a client's call of \<^verbatim>\<open>proxy.process_transaction\<close>.\<close>
  "submit p transaction_id amount priority' w =
     snd (Proxy_process_transaction p transaction_id amount priority' w)"

definition call :: "'e world \<Rightarrow> ref \<Rightarrow> 'e \<Rightarrow> (exc + pyval) \<times> 'e" where
  \<comment> \<open>\<^verbatim>\<open>self.method(self.servant, *self.args, **self.kwargs)\<close> of request \<open>r\<close>, in environment \<open>e\<close>.\<close>
  "call w r e = (let self = requests w ! r in method_fn self (servant self) (args self) (kwargs self) e)"

definition never_raises :: "'e world \<Rightarrow> ref \<Rightarrow> bool" where
  \<comment> \<open>The bound operation of request \<open>r\<close> returns normally whatever the environment.\<close>
  "never_raises w r = (\<forall>e. \<not> isl (fst (call w r e)))"

definition future_of :: "'e world \<Rightarrow> ref \<Rightarrow> ref" where
  "future_of w r = future (requests w ! r)"

definition wf :: "'e world \<Rightarrow> bool" where
  \<comment> \<open>What holds of every state the four classes produce: the queue is a heap of existing
      requests, and every request has a Future of its own.\<close>
  "wf w =
     (heap_ok (priority_of w) (queue w) \<and>
      (\<forall>r \<in> set (queue w). r < length (requests w)) \<and>
      (\<forall>r < length (requests w). future_of w r < length (futures w)) \<and>
      (\<forall>r < length (requests w). \<forall>r' < length (requests w).
          future_of w r = future_of w r' \<longrightarrow> r = r'))"

subsection \<open>Scenarios\<close>

definition e0 :: env where
  \<comment> \<open>Nothing printed, no time slept.\<close>
  "e0 = \<lparr>stdout = [], slept = 0\<rparr>"

definition one_future :: "env world" where
  \<comment> \<open>A fresh program in which one \<^verbatim>\<open>Future()\<close> has been created.\<close>
  "one_future = snd (Future_init (Scheduler_init e0))"

definition px :: proxy where
  \<comment> \<open>The proxy of the examples; its servant is object 0.\<close>
  "px = \<lparr>proxy_servant = 0\<rparr>"

definition raising_op :: "ref \<Rightarrow> pyval list \<Rightarrow> (string \<times> pyval) list \<Rightarrow> env \<Rightarrow> (exc + pyval) \<times> env" where
  \<comment> \<open>A bound operation that raises.\<close>
  "raising_op self as ks e = (Inl (Exc ''ValueError''), e)"

definition none_op :: "ref \<Rightarrow> pyval list \<Rightarrow> (string \<times> pyval) list \<Rightarrow> env \<Rightarrow> (exc + pyval) \<times> env" where
  \<comment> \<open>A bound operation that returns \<^verbatim>\<open>None\<close>, as a Python function without \<^verbatim>\<open>return\<close> does.\<close>
  "none_op self as ks e = (Inr PyNone, e)"

definition enqueue_new ::
  "(ref \<Rightarrow> pyval list \<Rightarrow> (string \<times> pyval) list \<Rightarrow> env \<Rightarrow> (exc + pyval) \<times> env) \<Rightarrow> int \<Rightarrow>
   env world \<Rightarrow> env world" where
  \<comment> \<open>\<^verbatim>\<open>scheduler.enqueue(MethodRequest(servant, op, priority=pr))\<close>.\<close>
  "enqueue_new op pr w =
     (let (method_request, w) = MethodRequest_init 0 op [] [] pr w
      in Scheduler_enqueue method_request w)"

definition failure_scenario :: "env world" where
  \<comment> \<open>Request 0 (priority 5) raises; request 1 (priority 1) is a transaction.\<close>
  "failure_scenario =
     submit px (PyStr ''B'') (PyInt 1) 1 (enqueue_new raising_op 5 (Scheduler_init e0))"

definition none_scenario :: "env world" where
  \<comment> \<open>One request, whose operation returns \<^verbatim>\<open>None\<close>.\<close>
  "none_scenario = enqueue_new none_op 0 (Scheduler_init e0)"

definition tie_scenario :: "env world" where
  \<comment> \<open>Two transactions of priority 5, submitted before the worker takes any.\<close>
  "tie_scenario =
     submit px (PyStr ''B'') (PyInt 2) 5 (submit px (PyStr ''A'') (PyInt 1) 5 (Scheduler_init e0))"

definition four_ties :: "env world" where
  \<comment> \<open>Four transactions of priority 5, submitted before the worker takes any.\<close>
  "four_ties =
     submit px (PyStr ''D'') (PyInt 4) 5 (submit px (PyStr ''C'') (PyInt 3) 5
       (submit px (PyStr ''B'') (PyInt 2) 5 (submit px (PyStr ''A'') (PyInt 1) 5
         (Scheduler_init e0))))"

definition example_usage :: "env world" where
  \<comment> \<open>The three calls of the example under \<^verbatim>\<open>__main__\<close>, made before the worker takes any.\<close>
  "example_usage =
     submit px (PyStr ''T1003'') (PyInt 3000) 5 (submit px (PyStr ''T1002'') (PyInt 500) 1
       (submit px (PyStr ''T1001'') (PyInt 10000) 10 (Scheduler_init e0)))"

definition ties_then_higher :: "env world" where
  \<comment> \<open>Two transactions of priority 5, then one of priority 10, submitted before the worker
      takes any.\<close>
  "ties_then_higher =
     submit px (PyStr ''C'') (PyInt 3) 10 (submit px (PyStr ''B'') (PyInt 2) 5
       (submit px (PyStr ''A'') (PyInt 1) 5 (Scheduler_init e0)))"

definition spec_priorities :: "env world" where
  \<comment> \<open>Three requests of priorities 1, 10, 5, submitted to a fresh Scheduler before the worker
      takes any.\<close>
  "spec_priorities =
     fold step
       [Submit 0 TransactionProcessor_process_transaction [PyStr ''a'', PyInt 100] [] 1,
        Submit 0 TransactionProcessor_process_transaction [PyStr ''b'', PyInt 200] [] 10,
        Submit 0 TransactionProcessor_process_transaction [PyStr ''c'', PyInt 300] [] 5]
       (Scheduler_init e0)"

definition three_ties :: "env world" where
  \<comment> \<open>Three requests of priority 5, submitted to a fresh Scheduler before the worker takes any.\<close>
  "three_ties =
     fold step
       [Submit 0 TransactionProcessor_process_transaction [PyStr ''A'', PyInt 1] [] 5,
        Submit 0 TransactionProcessor_process_transaction [PyStr ''B'', PyInt 2] [] 5,
        Submit 0 TransactionProcessor_process_transaction [PyStr ''C'', PyInt 3] [] 5]
       (Scheduler_init e0)"

declare siftdown_loop.simps [simp del] siftup_loop.simps [simp del] digits.simps [simp del]

section \<open>The heap of heapq\<close>

lemma length_siftdown_loop [simp]:
  "length (siftdown_loop lt x sp h pos) = length h"
  by (induction lt x sp h pos rule: siftdown_loop.induct)
     (subst siftdown_loop.simps, simp add: Let_def)

lemma mset_siftdown_loop:
  "pos < length h \<Longrightarrow> mset (siftdown_loop lt x sp h pos) = mset (h[pos := x])"
proof (induction lt x sp h pos rule: siftdown_loop.induct)
  case (1 lt x sp h pos)
  show ?case
  proof (cases "pos > sp \<and> lt x (h ! ((pos - 1) div 2))")
    case True
    let ?p = "(pos - 1) div 2"
    from True 1(2) have p: "?p < length h" "?p \<noteq> pos" by auto
    have "mset (siftdown_loop lt x sp h pos) = mset ((h[pos := h ! ?p])[?p := x])"
      using True 1(1)[OF _ refl refl] p by (subst siftdown_loop.simps) (simp add: Let_def)
    also have "(h[pos := h ! ?p])[?p := x] = (h[pos := x])[pos := h[pos := x] ! ?p, ?p := h[pos := x] ! pos]"
      using p 1(2) by simp
    also have "mset \<dots> = mset (h[pos := x])"
      using p 1(2) by (intro mset_swap) auto
    finally show ?thesis .
  next
    case False
    then show ?thesis by (subst siftdown_loop.simps) (auto simp: Let_def)
  qed
qed

lemma inv_down_step:
  assumes "inv_down k h pos x" "0 < pos" "k (h ! ((pos - 1) div 2)) < k x"
  shows "inv_down k (h[pos := h ! ((pos - 1) div 2)]) ((pos - 1) div 2) x"
proof -
  let ?p = "(pos - 1) div 2"
  let ?n = "length h"
  from assms have pos: "pos < ?n" and pp: "?p < pos" by (auto simp: inv_down_def)
  have e1: "\<And>i. 0 < i \<Longrightarrow> i < ?n \<Longrightarrow> i \<noteq> pos \<Longrightarrow> k (h[pos := x] ! i) \<le> k (h[pos := x] ! ((i - 1) div 2))"
    using assms(1) by (auto simp: inv_down_def)
  have e2: "\<And>i. 0 < i \<Longrightarrow> i < ?n \<Longrightarrow> (i - 1) div 2 = pos \<Longrightarrow> k (h ! i) \<le> k (h ! ?p)"
    using assms(1,2) by (auto simp: inv_down_def)
  have a: "k (h[pos := h ! ?p, ?p := x] ! i) \<le> k (h[pos := h ! ?p, ?p := x] ! ((i - 1) div 2))"
    if i: "0 < i" "i < ?n" "i \<noteq> ?p" for i
  proof (cases "i = pos")
    case True
    then show ?thesis using pos pp assms(3) by simp
  next
    case ip: False
    have ii: "(i - 1) div 2 < i" using i by auto
    show ?thesis
    proof (cases "(i - 1) div 2 = pos")
      case True
      then show ?thesis using e2[OF i(1,2) True] i ip pos pp by simp
    next
      case np: False
      show ?thesis
      proof (cases "(i - 1) div 2 = ?p")
        case True
        have "k (h ! i) \<le> k (h ! ?p)" using e1[OF i(1,2) ip] ip np True pp by simp
        then show ?thesis using True i ip pos pp assms(3) by simp
      next
        case False
        then show ?thesis using e1[OF i(1,2) ip] ip np i by simp
      qed
    qed
  qed
  have b: "k (h[pos := h ! ?p] ! i) \<le> k (h[pos := h ! ?p] ! ((?p - 1) div 2))"
    if i: "0 < i" "i < ?n" "(i - 1) div 2 = ?p" "0 < ?p" for i
  proof -
    have q: "(?p - 1) div 2 < ?p" using i(4) by auto
    have pe: "k (h ! ?p) \<le> k (h ! ((?p - 1) div 2))"
      using e1[of ?p] i(4) pp pos q by simp
    show ?thesis
    proof (cases "i = pos")
      case True
      then show ?thesis using pe pos pp q by simp
    next
      case False
      have "k (h ! i) \<le> k (h ! ?p)" using e1[OF i(1,2) False] False i(3) pp by simp
      then show ?thesis using pe False pp q by simp
    qed
  qed
  show ?thesis
    unfolding inv_down_def
  proof (intro conjI allI impI)
    show "?p < length (h[pos := h ! ?p])" using pos pp by simp
  next
    fix i assume "0 < i \<and> i < length (h[pos := h ! ?p]) \<and> i \<noteq> ?p"
    then show "k (h[pos := h ! ?p, ?p := x] ! i) \<le> k (h[pos := h ! ?p, ?p := x] ! ((i - 1) div 2))"
      using a[of i] by simp
  next
    fix i assume "0 < i \<and> i < length (h[pos := h ! ?p]) \<and> (i - 1) div 2 = ?p \<and> 0 < ?p"
    then show "k (h[pos := h ! ?p] ! i) \<le> k (h[pos := h ! ?p] ! ((?p - 1) div 2))"
      using b[of i] by simp
  qed
qed

lemma heap_ok_siftdown_loop:
  "inv_down k h pos x \<Longrightarrow> heap_ok k (siftdown_loop (\<lambda>a b. k a > k b) x 0 h pos)"
proof (induction "\<lambda>a b. k a > k b" x "0::nat" h pos rule: siftdown_loop.induct)
  case (1 x h pos)
  let ?p = "(pos - 1) div 2"
  show ?case
  proof (cases "pos > 0 \<and> k x > k (h ! ?p)")
    case True
    then have "inv_down k (h[pos := h ! ?p]) ?p x" using inv_down_step[OF 1(2)] by simp
    then have "heap_ok k (siftdown_loop (\<lambda>a b. k a > k b) x 0 (h[pos := h ! ?p]) ?p)"
      using 1(1)[OF _ refl refl] True by simp
    then show ?thesis using True by (subst siftdown_loop.simps) (simp add: Let_def)
  next
    case False
    have "heap_ok k (h[pos := x])"
      unfolding heap_ok_def
    proof (intro allI impI)
      fix i assume i: "0 < i \<and> i < length (h[pos := x])"
      show "k (h[pos := x] ! i) \<le> k (h[pos := x] ! ((i - 1) div 2))"
      proof (cases "i = pos")
        case True
        then have "(i - 1) div 2 < i" using i by auto
        then show ?thesis using True False i by simp
      next
        case False
        then show ?thesis using 1(2) i by (simp add: inv_down_def)
      qed
    qed
    then show ?thesis using False by (subst siftdown_loop.simps) (auto simp: Let_def)
  qed
qed


lemma siftup_loop_shape_aux:
  "n = length h \<Longrightarrow> pos < n \<Longrightarrow> siftup_loop lt n h pos = (h', pos') \<Longrightarrow>
   length h' = n \<and> pos' < n \<and> n \<le> 2 * pos' + 1 \<and>
   mset (h'[pos' := x]) = mset (h[pos := x])"
proof (induction lt n h pos arbitrary: h' pos' rule: siftup_loop.induct)
  case (1 lt n h pos)
  show ?case
  proof (cases "2 * pos + 1 < n")
    case False
    then show ?thesis using 1(2,3,4) by (subst (asm) siftup_loop.simps) (auto simp: Let_def)
  next
    case True
    define c where "c = (if 2 * pos + 1 + 1 < n \<and> \<not> lt (h ! (2 * pos + 1)) (h ! (2 * pos + 1 + 1))
                         then 2 * pos + 1 + 1 else 2 * pos + 1)"
    have c: "c < n" "pos < c" using True by (auto simp: c_def)
    have eq: "siftup_loop lt n h pos = siftup_loop lt n (h[pos := h ! c]) c"
      using True by (subst siftup_loop.simps) (simp add: Let_def c_def)
    have "length h' = n \<and> pos' < n \<and> n \<le> 2 * pos' + 1 \<and>
          mset (h'[pos' := x]) = mset ((h[pos := h ! c])[c := x])"
      using 1(1)[OF refl True refl c_def, of h' pos'] c 1(2,4) eq
      by simp
    moreover have "(h[pos := h ! c])[c := x] = (h[pos := x])[pos := h[pos := x] ! c, c := h[pos := x] ! pos]"
      using c 1(2,3) by simp
    moreover have "mset ((h[pos := x])[pos := h[pos := x] ! c, c := h[pos := x] ! pos]) = mset (h[pos := x])"
      using c 1(2,3) by (intro mset_swap) auto
    ultimately show ?thesis by simp
  qed
qed

lemmas siftup_loop_shape = siftup_loop_shape_aux[OF refl]

lemma inv_up_step:
  assumes "inv_up k h pos" "c < length h" "(c - 1) div 2 = pos" "0 < c"
    and "\<And>i. 0 < i \<Longrightarrow> i < length h \<Longrightarrow> (i - 1) div 2 = pos \<Longrightarrow> k (h ! i) \<le> k (h ! c)"
  shows "inv_up k (h[pos := h ! c]) c"
proof -
  let ?n = "length h"
  let ?h = "h[pos := h ! c]"
  from assms have pos: "pos < ?n" and pc: "pos < c" by (auto simp: inv_up_def)
  have e1: "\<And>i. 0 < i \<Longrightarrow> i < ?n \<Longrightarrow> i \<noteq> pos \<Longrightarrow> (i - 1) div 2 \<noteq> pos \<Longrightarrow> k (h ! i) \<le> k (h ! ((i - 1) div 2))"
    using assms(1) by (auto simp: inv_up_def)
  have e2: "\<And>i. 0 < i \<Longrightarrow> i < ?n \<Longrightarrow> (i - 1) div 2 = pos \<Longrightarrow> 0 < pos \<Longrightarrow> k (h ! i) \<le> k (h ! ((pos - 1) div 2))"
    using assms(1) by (auto simp: inv_up_def)
  have a: "k (?h ! i) \<le> k (?h ! ((i - 1) div 2))"
    if i: "0 < i" "i < ?n" "i \<noteq> c" "(i - 1) div 2 \<noteq> c" for i
  proof (cases "i = pos")
    case True
    then have "(pos - 1) div 2 < pos" using i by auto
    then show ?thesis using True e2[OF assms(4,2,3)] i pos by simp
  next
    case ip: False
    show ?thesis
    proof (cases "(i - 1) div 2 = pos")
      case True
      then show ?thesis using assms(5)[OF i(1,2) True] ip pos by simp
    next
      case False
      then show ?thesis using e1[OF i(1,2) ip False] ip by simp
    qed
  qed
  have b: "k (?h ! i) \<le> k (?h ! ((c - 1) div 2))"
    if i: "0 < i" "i < ?n" "(i - 1) div 2 = c" for i
  proof -
    have "c < i" using i by auto
    then have "i \<noteq> pos" "(i - 1) div 2 \<noteq> pos" using pc i by auto
    then show ?thesis using e1[OF i(1,2)] i(3) assms(3) pos by simp
  qed
  show ?thesis
    unfolding inv_up_def
  proof (intro conjI allI impI)
    show "c < length ?h" using assms(2) by simp
  next
    fix i assume "0 < i \<and> i < length ?h \<and> i \<noteq> c \<and> (i - 1) div 2 \<noteq> c"
    then show "k (?h ! i) \<le> k (?h ! ((i - 1) div 2))" using a[of i] by simp
  next
    fix i assume "0 < i \<and> i < length ?h \<and> (i - 1) div 2 = c \<and> 0 < c"
    then show "k (?h ! i) \<le> k (?h ! ((c - 1) div 2))" using b[of i] by simp
  qed
qed

lemma siftup_loop_inv_aux:
  "n = length h \<Longrightarrow> lt = (\<lambda>a b. k a > k b) \<Longrightarrow> inv_up k h pos \<Longrightarrow>
   siftup_loop lt n h pos = (h', pos') \<Longrightarrow> inv_up k h' pos'"
proof (induction lt n h pos arbitrary: h' pos' rule: siftup_loop.induct)
  case (1 lt n h pos)
  show ?case
  proof (cases "2 * pos + 1 < n")
    case False
    then show ?thesis using 1(4,5) by (subst (asm) siftup_loop.simps) (auto simp: Let_def)
  next
    case True
    define c where "c = (if 2 * pos + 1 + 1 < n \<and> \<not> lt (h ! (2 * pos + 1)) (h ! (2 * pos + 1 + 1))
                         then 2 * pos + 1 + 1 else 2 * pos + 1)"
    have c: "c < length h" "(c - 1) div 2 = pos" "0 < c" using True 1(2) by (auto simp: c_def)
    have eq: "siftup_loop lt n h pos = siftup_loop lt n (h[pos := h ! c]) c"
      using True by (subst siftup_loop.simps) (simp add: Let_def c_def)
    have best: "k (h ! i) \<le> k (h ! c)" if "0 < i" "i < length h" "(i - 1) div 2 = pos" for i
    proof -
      have "i = 2 * pos + 1 \<or> i = 2 * pos + 2" using that by auto
      then show ?thesis using that 1(2,3) by (auto simp: c_def)
    qed
    have "inv_up k (h[pos := h ! c]) c"
      using inv_up_step[OF 1(4) c best] .
    then show ?thesis
      using 1(1)[OF refl True refl c_def _ 1(3), of h' pos'] 1(2,5) eq by simp
  qed
qed

lemmas siftup_loop_inv = siftup_loop_inv_aux[OF refl refl]

lemma inv_up_leaf_inv_down:
  assumes "inv_up k h pos" "length h \<le> 2 * pos + 1"
  shows "inv_down k (h[pos := y]) pos x"
proof -
  have leaf: "\<And>i. 0 < i \<Longrightarrow> i < length h \<Longrightarrow> (i - 1) div 2 \<noteq> pos"
    using assms(2) by auto
  show ?thesis
    unfolding inv_down_def
  proof (intro conjI allI impI)
    show "pos < length (h[pos := y])" using assms(1) by (simp add: inv_up_def)
  next
    fix i assume i: "0 < i \<and> i < length (h[pos := y]) \<and> i \<noteq> pos"
    then have "(i - 1) div 2 \<noteq> pos" using leaf by simp
    then show "k (h[pos := y, pos := x] ! i) \<le> k (h[pos := y, pos := x] ! ((i - 1) div 2))"
      using assms(1) i by (simp add: inv_up_def)
  next
    fix i assume "0 < i \<and> i < length (h[pos := y]) \<and> (i - 1) div 2 = pos \<and> 0 < pos"
    then have False using leaf[of i] by simp
    then show "k (h[pos := y] ! i) \<le> k (h[pos := y] ! ((pos - 1) div 2))" ..
  qed
qed

lemma heap_ok_heappush:
  assumes "heap_ok k h"
  shows "heap_ok k (heappush (\<lambda>a b. k a > k b) h x)"
proof -
  let ?h = "h @ [x]"
  have "inv_down k ?h (length h) x"
    unfolding inv_down_def
  proof (intro conjI allI impI)
    show "length h < length ?h" by simp
  next
    fix i assume i: "0 < i \<and> i < length ?h \<and> i \<noteq> length h"
    then have "i < length h" "(i - 1) div 2 < length h" by auto
    then show "k (?h[length h := x] ! i) \<le> k (?h[length h := x] ! ((i - 1) div 2))"
      using assms i by (simp add: heap_ok_def nth_append)
  next
    fix i assume "0 < i \<and> i < length ?h \<and> (i - 1) div 2 = length h \<and> 0 < length h"
    then have False by auto
    then show "k (?h ! i) \<le> k (?h ! ((length h - 1) div 2))" ..
  qed
  then show ?thesis
    using heap_ok_siftdown_loop[of k ?h "length h" x]
    by (simp add: heappush_def siftdown_def Let_def)
qed

lemma mset_heappush: "mset (heappush lt h x) = add_mset x (mset h)"
  by (simp add: heappush_def siftdown_def Let_def mset_siftdown_loop)

lemma length_heappush [simp]: "length (heappush lt h x) = Suc (length h)"
  by (simp add: heappush_def siftdown_def Let_def)

lemma heap_ok_root_max:
  "heap_ok k h \<Longrightarrow> i < length h \<Longrightarrow> k (h ! i) \<le> k (h ! 0)"
proof (induction i rule: less_induct)
  case (less i)
  show ?case
  proof (cases "i = 0")
    case True
    then show ?thesis by simp
  next
    case False
    then have p: "(i - 1) div 2 < i" by auto
    have "k (h ! i) \<le> k (h ! ((i - 1) div 2))"
      using less.prems False by (simp add: heap_ok_def)
    also have "\<dots> \<le> k (h ! 0)"
      using less.IH[OF p less.prems(1)] p less.prems(2) by simp
    finally show ?thesis .
  qed
qed

lemma heap_ok_butlast: "heap_ok k h \<Longrightarrow> heap_ok k (butlast h)"
  by (auto simp: heap_ok_def nth_butlast)

lemma heappop_props:
  assumes "heap_ok k h" "h \<noteq> []"
  obtains h' where "heappop (\<lambda>a b. k a > k b) h = Inr (h ! 0, h')"
    "heap_ok k h'" "mset h = add_mset (h ! 0) (mset h')"
proof (cases "butlast h = []")
  case True
  then have h: "h = [last h]" using assms(2)
    by (metis append_butlast_last_id append_Nil)
  then have "h ! 0 = last h" by (metis nth_Cons_0)
  then have "heappop (\<lambda>a b. k a > k b) h = Inr (h ! 0, [])" 
    using True assms(2) by (simp add: heappop_def Let_def)
  moreover have "heap_ok k []" by (simp add: heap_ok_def)
  moreover have "mset h = add_mset (h ! 0) (mset [])" using h \<open>h ! 0 = last h\<close> by (metis mset.simps)
  ultimately show ?thesis using that by blast
next
  case False
  let ?lt = "\<lambda>a b. k a > k b"
  let ?b = "butlast h"
  let ?g = "?b[0 := last h]"
  obtain g' pos' where sl: "siftup_loop ?lt (length ?g) ?g 0 = (g', pos')"
    by (cases "siftup_loop ?lt (length ?g) ?g 0") auto
  have len: "0 < length ?g" using False by (cases "butlast h") auto
  have hb: "heap_ok k ?b" using assms(1) by (rule heap_ok_butlast)
  have iu: "inv_up k ?g 0"
    unfolding inv_up_def
  proof (intro conjI allI impI)
    show "0 < length ?g" by (rule len)
  next
    fix i assume i: "0 < i \<and> i < length ?g \<and> i \<noteq> 0 \<and> (i - 1) div 2 \<noteq> 0"
    then show "k (?g ! i) \<le> k (?g ! ((i - 1) div 2))"
      using hb by (simp add: heap_ok_def)
  next
    fix i assume "0 < i \<and> i < length ?g \<and> (i - 1) div 2 = 0 \<and> (0::nat) < 0"
    then show "k (?g ! i) \<le> k (?g ! ((0 - 1) div 2))" by simp
  qed
  have shape: "length g' = length ?g \<and> pos' < length ?g \<and> length ?g \<le> 2 * pos' + 1 \<and>
      mset (g'[pos' := last h]) = mset (?g[0 := last h])"
    using siftup_loop_shape[OF len sl] .
  have iu': "inv_up k g' pos'" using siftup_loop_inv[OF iu sl] .
  have idn: "inv_down k (g'[pos' := last h]) pos' (last h)"
    using inv_up_leaf_inv_down[OF iu'] shape by simp
  define h' where "h' = siftdown ?lt (g'[pos' := last h]) 0 pos'"
  have g0: "?g ! 0 = last h" using len by simp
  have "0 < length ?b" using False by (cases "butlast h") auto
  then have b0: "?b ! 0 = h ! 0" by (rule nth_butlast)
  have pop: "heappop ?lt h = Inr (h ! 0, h')"
    using False assms(2) sl g0 shape b0
    by (simp add: heappop_def Let_def siftup_def h'_def)
  have ok: "heap_ok k h'"
    using heap_ok_siftdown_loop[OF idn] shape by (simp add: h'_def siftdown_def)
  have "mset h' = mset (?g[0 := last h])"
    using shape by (simp add: h'_def siftdown_def mset_siftdown_loop)
  also have "\<dots> = mset (?b[0 := last h])" by simp
  finally have m1: "mset h' = mset (?b[0 := last h])" .
  have "mset h = mset (?b @ [last h])" using assms(2) by simp
  also have "\<dots> = add_mset (last h) (mset ?b)" by simp
  also have "mset ?b = add_mset (?b ! 0) (mset (?b[0 := last h]) - {#last h#})"
    using False by (cases ?b) auto
  finally have "mset h = add_mset (?b ! 0) (mset (?b[0 := last h]))"
    using False by (cases ?b) auto
  moreover note b0
  ultimately have "mset h = add_mset (h ! 0) (mset h')" using m1 by simp
  with pop ok show ?thesis using that by blast
qed

section \<open>Effects of the operations on the state\<close>

lemma Future_set_result_sel [simp]:
  "env (Future_set_result f v w) = env w"
  "futures (Future_set_result f v w) = (futures w)[f := v]"
  "requests (Future_set_result f v w) = requests w"
  "queue (Future_set_result f v w) = queue w"
  "worker (Future_set_result f v w) = worker w"
  "executed (Future_set_result f v w) = executed w"
  "threads (Future_set_result f v w) t = (if threads w t = Waiting f then Notified f else threads w t)"
  by (simp_all add: Future_set_result_def)

lemma Future_get_result_sel [simp]:
  "env (Future_get_result t f w) = env w"
  "futures (Future_get_result t f w) = futures w"
  "requests (Future_get_result t f w) = requests w"
  "queue (Future_get_result t f w) = queue w"
  "worker (Future_get_result t f w) = worker w"
  "executed (Future_get_result t f w) = executed w"
  "threads (Future_get_result t f w) t' =
     (if t' = t then (if futures w ! f = PyNone then Waiting f else Returned (futures w ! f))
      else threads w t')"
  by (simp_all add: Future_get_result_def)

lemma Future_wakeup_sel [simp]:
  "env (Future_wakeup t w) = env w"
  "futures (Future_wakeup t w) = futures w"
  "requests (Future_wakeup t w) = requests w"
  "queue (Future_wakeup t w) = queue w"
  "worker (Future_wakeup t w) = worker w"
  "executed (Future_wakeup t w) = executed w"
  by (simp_all add: Future_wakeup_def split: thread_state.splits)

lemma Future_wakeup_threads:
  "threads (Future_wakeup t w) t' =
     (case threads w t of
        Notified f \<Rightarrow> (if t' = t then (if futures w ! f = PyNone then Waiting f else Returned (futures w ! f))
                        else threads w t')
      | _ \<Rightarrow> threads w t')"
  by (simp add: Future_wakeup_def split: thread_state.splits)

lemma MethodRequest_execute_sel [simp]:
  "requests (snd (MethodRequest_execute r w)) = requests w"
  "queue (snd (MethodRequest_execute r w)) = queue w"
  "worker (snd (MethodRequest_execute r w)) = worker w"
  "executed (snd (MethodRequest_execute r w)) = executed w"
  "length (futures (snd (MethodRequest_execute r w))) = length (futures w)"
  by (simp_all add: MethodRequest_execute_def Let_def split: prod.splits sum.splits)

lemma Scheduler_enqueue_sel [simp]:
  "env (Scheduler_enqueue r w) = env w"
  "futures (Scheduler_enqueue r w) = futures w"
  "requests (Scheduler_enqueue r w) = requests w"
  "worker (Scheduler_enqueue r w) = worker w"
  "executed (Scheduler_enqueue r w) = executed w"
  "threads (Scheduler_enqueue r w) = threads w"
  "queue (Scheduler_enqueue r w) = heappush (MethodRequest_lt (requests w)) (queue w) r"
  by (simp_all add: Scheduler_enqueue_def)

lemma MethodRequest_lt_key: "MethodRequest_lt (requests w) = (\<lambda>a b. priority_of w a > priority_of w b)"
  by (simp add: MethodRequest_lt_def priority_of_def fun_eq_iff)



lemma Scheduler_run_iter_idle:
  "worker w \<noteq> Alive \<or> queue w = [] \<Longrightarrow> Scheduler_run_iter w = w"
  by (auto simp: Scheduler_run_iter_def split: worker_state.splits)

lemma Scheduler_run_iter_take:
  "worker w = Alive \<Longrightarrow> queue w \<noteq> [] \<Longrightarrow>
   heappop (MethodRequest_lt (requests w)) (queue w) = Inr (r, q) \<Longrightarrow>
   Scheduler_run_iter w =
     (case MethodRequest_execute r (w\<lparr>queue := q, executed := executed w @ [r]\<rparr>) of
        (Inl e, w') \<Rightarrow> w'\<lparr>worker := Dead e\<rparr>
      | (Inr u, w') \<Rightarrow> w')"
  by (simp add: Scheduler_run_iter_def)

lemma Scheduler_run_iter_take_sel:
  assumes "worker w = Alive" "queue w \<noteq> []"
    "heappop (MethodRequest_lt (requests w)) (queue w) = Inr (r, q)"
  shows "requests (Scheduler_run_iter w) = requests w"
    "queue (Scheduler_run_iter w) = q"
    "executed (Scheduler_run_iter w) = executed w @ [r]"
proof -
  let ?v = "w\<lparr>queue := q, executed := executed w @ [r]\<rparr>"
  obtain res w' where ex: "MethodRequest_execute r ?v = (res, w')"
    by (cases "MethodRequest_execute r ?v") auto
  have sel: "requests w' = requests w" "queue w' = q" "executed w' = executed w @ [r]"
    using MethodRequest_execute_sel(1,2,4)[of r ?v] ex by simp_all
  have it: "Scheduler_run_iter w = (case res of Inl e \<Rightarrow> w'\<lparr>worker := Dead e\<rparr> | Inr u \<Rightarrow> w')"
    using Scheduler_run_iter_take[OF assms] ex by (simp split: sum.splits)
  show "requests (Scheduler_run_iter w) = requests w"
    "queue (Scheduler_run_iter w) = q"
    "executed (Scheduler_run_iter w) = executed w @ [r]"
    using it sel by (simp_all split: sum.splits)
qed

lemma Scheduler_run_iter_requests [simp]:
  "requests (Scheduler_run_iter w) = requests w"
proof (cases "worker w = Alive \<and> queue w \<noteq> []")
  case False
  then show ?thesis using Scheduler_run_iter_idle[of w] by auto
next
  case True
  show ?thesis
  proof (cases "heappop (MethodRequest_lt (requests w)) (queue w)")
    case (Inl e)
    then show ?thesis using True by (simp add: Scheduler_run_iter_def)
  next
    case (Inr p)
    then show ?thesis using True Scheduler_run_iter_take_sel(1)[of w "fst p" "snd p"] by simp
  qed
qed

lemma Scheduler_run_requests [simp]: "requests (Scheduler_run n w) = requests w"
  by (induction n arbitrary: w) simp_all

lemma Scheduler_run_iter_step:
  assumes "heap_ok (priority_of w) (queue w)"
  shows "heap_ok (priority_of w) (queue (Scheduler_run_iter w)) \<and>
     ((executed (Scheduler_run_iter w) = executed w \<and> queue (Scheduler_run_iter w) = queue w) \<or>
      (\<exists>r. executed (Scheduler_run_iter w) = executed w @ [r] \<and>
           mset (queue w) = add_mset r (mset (queue (Scheduler_run_iter w))) \<and>
           (\<forall>x \<in> set (queue w). priority_of w x \<le> priority_of w r)))"
proof (cases "worker w = Alive \<and> queue w \<noteq> []")
  case False
  then show ?thesis using Scheduler_run_iter_idle[of w] assms by auto
next
  case True
  then obtain q where pop: "heappop (MethodRequest_lt (requests w)) (queue w) = Inr (queue w ! 0, q)"
    and ok: "heap_ok (priority_of w) q"
    and ms: "mset (queue w) = add_mset (queue w ! 0) (mset q)"
    using heappop_props[OF assms, of thesis] by (auto simp: MethodRequest_lt_key)
  note sel = Scheduler_run_iter_take_sel[OF _ _ pop]
  have mx: "\<forall>x \<in> set (queue w). priority_of w x \<le> priority_of w (queue w ! 0)"
    using heap_ok_root_max[OF assms] by (auto simp: in_set_conv_nth)
  show ?thesis using True sel ok ms mx by auto
qed


lemma submit_sel:
  "env (submit p t a pr w) = env w"
  "futures (submit p t a pr w) = futures w @ [PyNone]"
  "requests (submit p t a pr w) = requests w @
      [\<lparr>servant = proxy_servant p, method_fn = TransactionProcessor_process_transaction,
        args = [t, a], kwargs = [], priority = pr, future = length (futures w)\<rparr>]"
  "worker (submit p t a pr w) = worker w"
  "executed (submit p t a pr w) = executed w"
  "threads (submit p t a pr w) = threads w"
  "queue (submit p t a pr w) =
     heappush (MethodRequest_lt (requests (submit p t a pr w))) (queue w) (length (requests w))"
  by (simp_all add: submit_def Proxy_process_transaction_def MethodRequest_init_def Future_init_def
      Let_def split: prod.splits)

lemma heappush_Nil: "heappush lt [] x = [x]"
  by (simp add: heappush_def siftdown_def siftdown_loop.simps)

lemmas run_eval = Scheduler_run_iter_def heappop_def siftup_def siftdown_def heappush_def Let_def
  siftdown_loop.simps siftup_loop.simps nth_append MethodRequest_lt_def MethodRequest_execute_def
  TransactionProcessor_process_transaction_def Future_set_result_def newly_executed_def
  priority_of_def

lemma MethodRequest_execute_call:
  "MethodRequest_execute r w =
     (case call w r (env w) of
        (Inl e, env') \<Rightarrow> (Inl e, w\<lparr>env := env'\<rparr>)
      | (Inr result, env') \<Rightarrow> (Inr (), Future_set_result (future_of w r) result (w\<lparr>env := env'\<rparr>)))"
  by (simp add: MethodRequest_execute_def call_def future_of_def Let_def split: prod.splits sum.splits)

lemma call_cong: "requests w' = requests w \<Longrightarrow> call w' = call w"
  by (simp add: call_def fun_eq_iff)

lemma future_of_cong: "requests w' = requests w \<Longrightarrow> future_of w' = future_of w"
  by (simp add: future_of_def fun_eq_iff)

lemma never_raises_cong: "requests w' = requests w \<Longrightarrow> never_raises w' = never_raises w"
  by (simp add: never_raises_def call_def fun_eq_iff)





section \<open>Well-formed states\<close>

lemma heap_ok_Nil [simp]: "heap_ok k []"
  by (simp add: heap_ok_def)

lemma heap_ok_cong_nth:
  "(\<And>i. i < length h \<Longrightarrow> k' (h ! i) = k (h ! i)) \<Longrightarrow> heap_ok k h \<Longrightarrow> heap_ok k' h"
  unfolding heap_ok_def
proof (intro allI impI)
  fix i
  assume eq: "\<And>i. i < length h \<Longrightarrow> k' (h ! i) = k (h ! i)"
    and ok: "\<forall>i. 0 < i \<and> i < length h \<longrightarrow> k (h ! i) \<le> k (h ! ((i - 1) div 2))"
    and i: "0 < i \<and> i < length h"
  then have "(i - 1) div 2 < length h" by auto
  then show "k' (h ! i) \<le> k' (h ! ((i - 1) div 2))" using eq ok i by simp
qed

lemma wf_Scheduler_init: "wf (Scheduler_init e)"
  by (simp add: wf_def Scheduler_init_def)

lemma set_heappush: "set (heappush lt h x) = insert x (set h)"
  using mset_heappush[of lt h x] by (metis set_mset_add_mset_insert set_mset_mset)

lemma wf_Scheduler_enqueue:
  assumes "wf w" "r < length (requests w)"
  shows "wf (Scheduler_enqueue r w)"
proof -
  have "heap_ok (priority_of w) (heappush (MethodRequest_lt (requests w)) (queue w) r)"
    unfolding MethodRequest_lt_key using assms(1) by (intro heap_ok_heappush) (simp add: wf_def)
  moreover have "priority_of (Scheduler_enqueue r w) = priority_of w"
    "future_of (Scheduler_enqueue r w) = future_of w"
    by (simp_all add: priority_of_def future_of_def fun_eq_iff)
  ultimately show ?thesis using assms by (simp add: wf_def set_heappush)
qed

lemma wf_MethodRequest_init:
  assumes "wf w"
  shows "wf (snd (MethodRequest_init s m as ks pr w))"
    and "fst (MethodRequest_init s m as ks pr w) = length (requests w)"
    and "length (requests (snd (MethodRequest_init s m as ks pr w))) = Suc (length (requests w))"
proof -
  let ?w' = "snd (MethodRequest_init s m as ks pr w)"
  have sel: "queue ?w' = queue w" "futures ?w' = futures w @ [PyNone]"
    "requests ?w' = requests w @ [\<lparr>servant = s, method_fn = m, args = as, kwargs = ks,
        priority = pr, future = length (futures w)\<rparr>]"
    by (simp_all add: MethodRequest_init_def Future_init_def Let_def)
  have old: "\<And>r. r < length (requests w) \<Longrightarrow> requests ?w' ! r = requests w ! r"
    by (simp add: sel nth_append)
  have qv: "\<forall>r \<in> set (queue w). r < length (requests w)" using assms by (simp add: wf_def)
  have "heap_ok (priority_of ?w') (queue w)"
  proof (rule heap_ok_cong_nth[of "queue w" _ "priority_of w"])
    fix i assume "i < length (queue w)"
    then have "queue w ! i < length (requests w)" using qv by simp
    then show "priority_of ?w' (queue w ! i) = priority_of w (queue w ! i)"
      by (simp add: priority_of_def old)
  next
    show "heap_ok (priority_of w) (queue w)" using assms by (simp add: wf_def)
  qed
  moreover have "\<forall>r \<in> set (queue ?w'). r < length (requests ?w')" using qv by (auto simp: sel)
  moreover have fo: "\<And>r. r < length (requests ?w') \<Longrightarrow>
      future_of ?w' r = (if r < length (requests w) then future_of w r else length (futures w))"
    by (auto simp: future_of_def sel nth_append)
  have fb: "\<And>r. r < length (requests w) \<Longrightarrow> future_of w r < length (futures w)"
    using assms by (simp add: wf_def)
  have "\<forall>r < length (requests ?w'). future_of ?w' r < length (futures ?w')"
  proof (intro allI impI)
    fix r assume r: "r < length (requests ?w')"
    show "future_of ?w' r < length (futures ?w')"
      using fo[OF r] fb[of r] by (simp add: sel less_Suc_eq)
  qed
  moreover have "\<forall>r < length (requests ?w'). \<forall>r' < length (requests ?w').
          future_of ?w' r = future_of ?w' r' \<longrightarrow> r = r'"
  proof (intro allI impI)
    fix r r' assume r: "r < length (requests ?w')" and r': "r' < length (requests ?w')"
      and eq: "future_of ?w' r = future_of ?w' r'"
    have inj: "\<And>a b. a < length (requests w) \<Longrightarrow> b < length (requests w) \<Longrightarrow>
        future_of w a = future_of w b \<Longrightarrow> a = b"
      using assms by (simp add: wf_def)
    show "r = r'"
    proof (cases "r < length (requests w)")
      case True
      show ?thesis
      proof (cases "r' < length (requests w)")
        case True
        then show ?thesis using eq fo[OF r] fo[OF r'] \<open>r < length (requests w)\<close> inj by simp
      next
        case False
        then show ?thesis using eq fo[OF r] fo[OF r'] \<open>r < length (requests w)\<close> fb[of r] by simp
      qed
    next
      case False
      show ?thesis
      proof (cases "r' < length (requests w)")
        case True
        then show ?thesis using eq fo[OF r] fo[OF r'] False fb[of r'] by simp
      next
        case False
        then show ?thesis using r r' \<open>\<not> r < length (requests w)\<close> by (simp add: sel)
      qed
    qed
  qed
  ultimately show "wf ?w'" by (simp add: wf_def sel(1))
  show "fst (MethodRequest_init s m as ks pr w) = length (requests w)"
    by (simp add: MethodRequest_init_def Future_init_def Let_def)
  show "length (requests ?w') = Suc (length (requests w))" by (simp add: sel)
qed

lemma submit_eq:
  "submit p t a pr w =
     Scheduler_enqueue (length (requests w))
       (snd (MethodRequest_init (proxy_servant p) TransactionProcessor_process_transaction [t, a] [] pr w))"
  by (simp add: submit_def Proxy_process_transaction_def MethodRequest_init_def Future_init_def
      Let_def split: prod.splits)

lemma wf_submit: "wf w \<Longrightarrow> wf (submit p t a pr w)"
  unfolding submit_eq
  by (rule wf_Scheduler_enqueue) (simp_all add: wf_MethodRequest_init)

lemma wf_Future_set_result: "wf w \<Longrightarrow> wf (Future_set_result f v w)"
proof -
  assume w: "wf w"
  have "priority_of (Future_set_result f v w) = priority_of w"
    "future_of (Future_set_result f v w) = future_of w"
    by (simp_all add: priority_of_def future_of_def fun_eq_iff)
  then show ?thesis using w by (simp add: wf_def)
qed

lemma wf_Scheduler_run_iter: "wf w \<Longrightarrow> wf (Scheduler_run_iter w)"
proof -
  assume w: "wf w"
  let ?v = "Scheduler_run_iter w"
  have ok: "heap_ok (priority_of w) (queue w)" using w by (simp add: wf_def)
  from Scheduler_run_iter_step[OF ok]
  have h: "heap_ok (priority_of w) (queue ?v)" and sub: "set (queue ?v) \<subseteq> set (queue w)"
    by (auto dest: arg_cong[where f = set_mset])
  have lf: "length (futures ?v) = length (futures w)"
  proof (cases "worker w = Alive \<and> queue w \<noteq> []")
    case False
    then show ?thesis using Scheduler_run_iter_idle[of w] by auto
  next
    case True
    show ?thesis
    proof (cases "heappop (MethodRequest_lt (requests w)) (queue w)")
      case (Inl e)
      then show ?thesis using True by (simp add: Scheduler_run_iter_def)
    next
      case (Inr p)
      obtain r q where p: "p = (r, q)" by (cases p)
      let ?u = "w\<lparr>queue := q, executed := executed w @ [r]\<rparr>"
      obtain res x where ex: "MethodRequest_execute r ?u = (res, x)"
        by (cases "MethodRequest_execute r ?u") auto
      have lx: "length (futures x) = length (futures w)"
        using MethodRequest_execute_sel(5)[of r ?u] ex by simp
      have "Scheduler_run_iter w = (case res of Inl e \<Rightarrow> x\<lparr>worker := Dead e\<rparr> | Inr u \<Rightarrow> x)"
        using Scheduler_run_iter_take[of w r q] True Inr p ex by (simp split: sum.splits)
      then show ?thesis using lx by (simp split: sum.splits)
    qed
  qed
  have "priority_of ?v = priority_of w" "future_of ?v = future_of w"
    by (simp_all add: priority_of_def future_of_def fun_eq_iff)
  then show ?thesis using w h sub lf by (auto simp: wf_def)
qed

lemma wf_Scheduler_run: "wf w \<Longrightarrow> wf (Scheduler_run n w)"
  by (induction n arbitrary: w) (simp_all add: wf_Scheduler_run_iter)

section \<open>Facts about the scenarios and the worker\<close>

lemmas scenario_eval = failure_scenario_def none_scenario_def enqueue_new_def px_def e0_def
  raising_op_def none_op_def Scheduler_init_def MethodRequest_init_def Future_init_def
  Scheduler_enqueue_def submit_def Proxy_process_transaction_def

lemmas str_eval = digits.simps digit_def int_max_str_digits_def

lemma init_state [simp]:
  "queue (Scheduler_init e) = []" "worker (Scheduler_init e) = Alive"
  "requests (Scheduler_init e) = []" "futures (Scheduler_init e) = []"
  "executed (Scheduler_init e) = []" "env (Scheduler_init e) = e"
  by (simp_all add: Scheduler_init_def)

lemma Scheduler_run_numeral:
  "Scheduler_run (numeral k) w = Scheduler_run (pred_numeral k) (Scheduler_run_iter w)"
  by (simp add: numeral_eq_Suc)

lemma failure_scenario_state:
  "queue failure_scenario = [0, 1]" "worker failure_scenario = Alive"
  "futures failure_scenario = [PyNone, PyNone]" "executed failure_scenario = []"
  "length (requests failure_scenario) = 2"
  "method_fn (requests failure_scenario ! 0) = raising_op"
  "priority (requests failure_scenario ! 0) = 5"
  "priority (requests failure_scenario ! 1) = 1"
  by (simp_all add: scenario_eval run_eval str_eval)

lemma example_usage_state:
  "queue example_usage = [0, 1, 2]" "worker example_usage = Alive"
  "priority_of example_usage 0 = 10" "priority_of example_usage (Suc 0) = 1"
  "priority_of example_usage 2 = 5"
  "newly_executed example_usage (Scheduler_run 3 example_usage) = [0, 2, 1]"
  by (simp_all add: example_usage_def Scheduler_run_numeral submit_sel heappush_Nil run_eval str_eval)

lemma wf_example_usage: "wf example_usage"
  unfolding example_usage_def by (intro wf_submit wf_Scheduler_init)

lemma heappop_head:
  "h \<noteq> [] \<Longrightarrow> \<exists>q. heappop lt h = Inr (h ! 0, q)"
proof (cases "butlast h = []")
  case True
  assume "h \<noteq> []"
  then have "h = [last h]" using True by (metis append_butlast_last_id append_Nil)
  then have "h ! 0 = last h" by (metis nth_Cons_0)
  then show ?thesis using True \<open>h \<noteq> []\<close> by (simp add: heappop_def Let_def)
next
  case False
  assume "h \<noteq> []"
  have "0 < length (butlast h)" using False by (cases "butlast h") auto
  then have "butlast h ! 0 = h ! 0" by (rule nth_butlast)
  then show ?thesis using False \<open>h \<noteq> []\<close> by (simp add: heappop_def Let_def)
qed

lemma Scheduler_run_dead:
  "worker w = Dead e \<Longrightarrow> Scheduler_run n w = w"
  by (induction n) (simp_all add: Scheduler_run_iter_def)

lemma process_transaction_returns:
  "\<not> isl (py_str t) \<Longrightarrow> \<not> isl (py_str a) \<Longrightarrow>
   \<not> isl (fst (TransactionProcessor_process_transaction s [t, a] [] e))"
  by (cases "py_str t"; cases "py_str a")
     (simp_all add: TransactionProcessor_process_transaction_def)

lemma process_transaction_raises:
  "isl (py_str t) \<or> isl (py_str a) \<Longrightarrow>
   fst (TransactionProcessor_process_transaction s [t, a] [] e) = Inl ValueError"
  by (cases t; cases a)
     (auto simp: TransactionProcessor_process_transaction_def Let_def split: if_splits)

section \<open>Interleaved submissions and iterations\<close>

lemma wf_Future_get_result: "wf w \<Longrightarrow> wf (Future_get_result t f w)"
proof -
  assume w: "wf w"
  have "priority_of (Future_get_result t f w) = priority_of w"
    "future_of (Future_get_result t f w) = future_of w"
    by (simp_all add: priority_of_def future_of_def fun_eq_iff)
  then show ?thesis using w by (simp add: wf_def)
qed

lemma wf_Future_wakeup: "wf w \<Longrightarrow> wf (Future_wakeup t w)"
  by (simp add: Future_wakeup_def wf_Future_get_result split: thread_state.splits)

lemma step_Submit:
  "step (Submit s m as ks pr) w =
     Scheduler_enqueue (length (requests w)) (snd (MethodRequest_init s m as ks pr w))"
  by (simp add: MethodRequest_init_def Future_init_def Let_def)

lemma wf_step: "wf w \<Longrightarrow> wf (step e w)"
proof (cases e)
  case (Submit s m as ks pr)
  assume "wf w"
  then show ?thesis unfolding Submit step_Submit
    by (intro wf_Scheduler_enqueue) (simp_all add: wf_MethodRequest_init)
qed (simp_all add: wf_Scheduler_run_iter wf_Future_get_result wf_Future_wakeup)

text \<open>What one event does to the requests, the queue and the history.\<close>

lemma step_effect:
  assumes "wf w"
  shows "(\<forall>r < length (requests w). r < length (requests (step e w)) \<and>
            requests (step e w) ! r = requests w ! r) \<and>
     ((executed (step e w) = executed w \<and>
       (\<forall>r < length (requests w). r \<in> set (queue (step e w)) \<longleftrightarrow> r \<in> set (queue w))) \<or>
      (\<exists>r. executed (step e w) = executed w @ [r] \<and>
           mset (queue w) = add_mset r (mset (queue (step e w))) \<and>
           (\<forall>x \<in> set (queue w). priority_of w x \<le> priority_of w r)))"
proof (cases e)
  case (Submit s m as ks pr)
  let ?w' = "snd (MethodRequest_init s m as ks pr w)"
  have sel: "queue ?w' = queue w" "executed ?w' = executed w"
    "requests ?w' = requests w @ [\<lparr>servant = s, method_fn = m, args = as, kwargs = ks,
        priority = pr, future = length (futures w)\<rparr>]"
    by (simp_all add: MethodRequest_init_def Future_init_def Let_def)
  show ?thesis unfolding Submit step_Submit
    by (auto simp: sel set_heappush nth_append)
next
  case Iterate
  have ok: "heap_ok (priority_of w) (queue w)" using assms by (simp add: wf_def)
  show ?thesis unfolding Iterate using Scheduler_run_iter_step[OF ok] by auto
next
  case (Get t f)
  then show ?thesis by simp
next
  case (Wakeup t)
  then show ?thesis by simp
qed

lemma executed_before_snoc:
  "executed_before (xs @ [r]) b a \<longleftrightarrow> executed_before xs b a \<or> (b \<in> set xs \<and> r = a)"
proof
  assume "executed_before (xs @ [r]) b a"
  then obtain i j where ij: "j < Suc (length xs)" "i < j" "(xs @ [r]) ! i = b" "(xs @ [r]) ! j = a"
    by (auto simp: executed_before_def)
  show "executed_before xs b a \<or> (b \<in> set xs \<and> r = a)"
  proof (cases "j < length xs")
    case True
    then show ?thesis using ij by (auto simp: executed_before_def nth_append)
  next
    case False
    then have "j = length xs" using ij(1) by simp
    then show ?thesis using ij by (auto simp: nth_append)
  qed
next
  assume "executed_before xs b a \<or> (b \<in> set xs \<and> r = a)"
  then show "executed_before (xs @ [r]) b a"
  proof
    assume "executed_before xs b a"
    then obtain i j where "j < length xs" "i < j" "xs ! i = b" "xs ! j = a"
      by (auto simp: executed_before_def)
    then show ?thesis unfolding executed_before_def
      by (intro exI[of _ j] conjI exI[of _ i]) (simp_all add: nth_append)
  next
    assume h: "b \<in> set xs \<and> r = a"
    then obtain i where "i < length xs" "xs ! i = b" by (auto simp: in_set_conv_nth)
    then show ?thesis unfolding executed_before_def using h
      by (intro exI[of _ "length xs"] conjI exI[of _ i]) (simp_all add: nth_append)
  qed
qed

text \<open>
  The invariant behind the order of execution: while a request \<open>A\<close> of higher priority is
  in the queue, the worker does not take \<open>B\<close>; and \<open>A\<close>, once taken, never comes back.
\<close>

lemma run_events_inv:
  assumes "wf w" "A \<in> set (queue w)" "B \<in> set (queue w)" "priority_of w A > priority_of w B"
  shows "\<exists>new. executed (fold step evs w) = executed w @ new \<and>
      wf (fold step evs w) \<and>
      (\<forall>r < length (requests w). r < length (requests (fold step evs w)) \<and>
          requests (fold step evs w) ! r = requests w ! r) \<and>
      (A \<in> set (queue (fold step evs w)) \<or> A \<in> set new) \<and>
      (B \<in> set new \<longrightarrow> A \<notin> set (queue (fold step evs w))) \<and>
      \<not> executed_before new B A"
proof (induction evs rule: rev_induct)
  case Nil
  show ?case using assms by (simp add: executed_before_def)
next
  case (snoc e evs)
  let ?v = "fold step evs w"
  let ?v' = "step e ?v"
  from snoc obtain new where inv:
    "executed ?v = executed w @ new" "wf ?v"
    "\<forall>r < length (requests w). r < length (requests ?v) \<and> requests ?v ! r = requests w ! r"
    "A \<in> set (queue ?v) \<or> A \<in> set new"
    "B \<in> set new \<longrightarrow> A \<notin> set (queue ?v)"
    "\<not> executed_before new B A"
    by blast
  have AB: "A < length (requests w)" "B < length (requests w)" using assms by (auto simp: wf_def)
  have pr: "priority_of ?v A = priority_of w A" "priority_of ?v B = priority_of w B"
    using inv(3) AB by (simp_all add: priority_of_def)
  note eff = step_effect[OF inv(2), of e]
  have req: "\<forall>r < length (requests w). r < length (requests ?v') \<and> requests ?v' ! r = requests w ! r"
    using eff inv(3) by auto
  have Av: "A < length (requests ?v)" using inv(3) AB by simp
  from eff have "(executed ?v' = executed ?v \<and>
       (\<forall>r < length (requests ?v). r \<in> set (queue ?v') \<longleftrightarrow> r \<in> set (queue ?v))) \<or>
      (\<exists>r. executed ?v' = executed ?v @ [r] \<and>
           mset (queue ?v) = add_mset r (mset (queue ?v')) \<and>
           (\<forall>x \<in> set (queue ?v). priority_of ?v x \<le> priority_of ?v r))" by blast
  then have "\<exists>new'. executed ?v' = executed w @ new' \<and>
      (A \<in> set (queue ?v') \<or> A \<in> set new') \<and>
      (B \<in> set new' \<longrightarrow> A \<notin> set (queue ?v')) \<and>
      \<not> executed_before new' B A"
  proof
    assume same: "executed ?v' = executed ?v \<and>
       (\<forall>r < length (requests ?v). r \<in> set (queue ?v') \<longleftrightarrow> r \<in> set (queue ?v))"
    then have "A \<in> set (queue ?v') \<longleftrightarrow> A \<in> set (queue ?v)" using Av by blast
    then show ?thesis using same inv by (intro exI[of _ new]) simp
  next
    assume "\<exists>r. executed ?v' = executed ?v @ [r] \<and>
           mset (queue ?v) = add_mset r (mset (queue ?v')) \<and>
           (\<forall>x \<in> set (queue ?v). priority_of ?v x \<le> priority_of ?v r)"
    then obtain r where r: "executed ?v' = executed ?v @ [r]"
      "mset (queue ?v) = add_mset r (mset (queue ?v'))"
      "\<forall>x \<in> set (queue ?v). priority_of ?v x \<le> priority_of ?v r" by blast
    have setq: "set (queue ?v) = insert r (set (queue ?v'))"
      using r(2) by (metis set_mset_add_mset_insert set_mset_mset)
    have rB: "r = B \<Longrightarrow> A \<notin> set (queue ?v)"
    proof
      assume "r = B" "A \<in> set (queue ?v)"
      then have "priority_of ?v A \<le> priority_of ?v B" using r(3) by blast
      then show False using pr assms(4) by simp
    qed
    have 1: "executed ?v' = executed w @ (new @ [r])" using r(1) inv(1) by simp
    have 2: "A \<in> set (queue ?v') \<or> A \<in> set (new @ [r])" using inv(4) setq by auto
    have 3: "B \<in> set (new @ [r]) \<longrightarrow> A \<notin> set (queue ?v')"
    proof
      assume "B \<in> set (new @ [r])"
      then have "A \<notin> set (queue ?v)" using inv(5) rB by auto
      then show "A \<notin> set (queue ?v')" using setq by auto
    qed
    have 4: "\<not> executed_before (new @ [r]) B A"
    proof
      assume "executed_before (new @ [r]) B A"
      then have "B \<in> set new \<and> r = A" using inv(6) by (simp add: executed_before_snoc)
      then have "A \<notin> set (queue ?v)" "r = A" using inv(5) by auto
      then show False using setq by auto
    qed
    show ?thesis using 1 2 3 4 by blast
  qed
  then obtain new' where n: "executed ?v' = executed w @ new'"
      "A \<in> set (queue ?v') \<or> A \<in> set new'"
      "B \<in> set new' \<longrightarrow> A \<notin> set (queue ?v')"
      "\<not> executed_before new' B A" by blast
  have "wf ?v'" using inv(2) by (rule wf_step)
  then show ?case using n req by (simp del: step.simps)
qed

lemma run_events_order:
  assumes "wf w" "A \<in> set (queue w)" "B \<in> set (queue w)" "priority_of w A > priority_of w B"
  shows "\<not> executed_before (newly_executed w (fold step evs w)) B A"
    and "B \<in> set (newly_executed w (fold step evs w)) \<Longrightarrow>
         A \<in> set (newly_executed w (fold step evs w)) \<and>
         executed_before (newly_executed w (fold step evs w)) A B"
proof -
  let ?new = "newly_executed w (fold step evs w)"
  obtain new where inv: "executed (fold step evs w) = executed w @ new"
      "A \<in> set (queue (fold step evs w)) \<or> A \<in> set new"
      "B \<in> set new \<longrightarrow> A \<notin> set (queue (fold step evs w))"
      "\<not> executed_before new B A"
    using run_events_inv[OF assms, of evs] by blast
  have n: "?new = new" by (simp add: newly_executed_def inv(1))
  show nb: "\<not> executed_before ?new B A" unfolding n by (rule inv(4))
  assume "B \<in> set ?new"
  then have b: "B \<in> set new" unfolding n .
  then have a: "A \<in> set new" using inv(2,3) by blast
  obtain i j where ij: "i < length new" "new ! i = A" "j < length new" "new ! j = B"
    using a b by (auto simp: in_set_conv_nth)
  have "A \<noteq> B" using assms(4) by auto
  then have "i \<noteq> j" using ij by auto
  moreover have "\<not> j < i" using inv(4) ij by (auto simp: executed_before_def)
  ultimately have "i < j" by simp
  then have "executed_before new A B" using ij by (auto simp: executed_before_def)
  then show "A \<in> set ?new \<and> executed_before ?new A B" unfolding n using a by simp
qed

lemma fold_step_Iterate: "fold step (replicate n Iterate) w = Scheduler_run n w"
  by (induction n arbitrary: w) simp_all

lemma step_requests:
  "take (length (requests w)) (requests (step e w)) = requests w"
  by (cases e) (simp_all add: MethodRequest_init_def Future_init_def Let_def)

lemma fold_step_requests:
  "take (length (requests w)) (requests (fold step evs w)) = requests w"
proof (induction evs rule: rev_induct)
  case Nil
  show ?case by simp
next
  case (snoc e evs)
  let ?v = "fold step evs w"
  have a: "take (length (requests ?v)) (requests (step e ?v)) = requests ?v" by (rule step_requests)
  have le: "length (requests w) \<le> length (requests ?v)"
  proof -
    have "min (length (requests ?v)) (length (requests w)) = length (requests w)"
      using arg_cong[OF snoc, where f = length] by (simp only: length_take)
    then show ?thesis by simp
  qed
  have "take (length (requests w)) (requests (step e ?v))
      = take (length (requests w)) (take (length (requests ?v)) (requests (step e ?v)))"
    using le by (simp add: min_def)
  also have "\<dots> = requests w" unfolding a by (rule snoc)
  finally show ?case by simp
qed

lemma example_usage_overtaken:
  "newly_executed example_usage
     (fold step [Iterate, Submit 0 TransactionProcessor_process_transaction
                            [PyStr ''T1004'', PyInt 70] [] 7, Iterate, Iterate, Iterate]
        example_usage) = [0, 3, 2, 1]"
  by (simp add: example_usage_def submit_sel heappush_Nil run_eval str_eval MethodRequest_init_def
      Future_init_def Scheduler_enqueue_def)

text \<open>The digits of an integer, and the conversion that fails.\<close>

lemma digits_length_lower: "10 ^ k \<le> n \<Longrightarrow> k < length (digits n)"
proof (induction k arbitrary: n)
  case 0
  show ?case by (subst digits.simps) simp
next
  case (Suc k)
  have big: "10 * 10 ^ k \<le> n" using Suc.prems by simp
  have n1: "\<not> n < 10"
  proof
    assume "n < 10"
    moreover have "(1::nat) \<le> 10 ^ k" by simp
    ultimately show False using big by linarith
  qed
  have n2: "10 ^ k \<le> n div 10" using big by (simp add: less_eq_div_iff_mult_less_eq mult.commute)
  have "k < length (digits (n div 10))" using Suc.IH[OF n2] .
  then show ?case using n1 by (subst digits.simps) simp
qed

lemma py_str_huge:
  "10 ^ int_max_str_digits \<le> \<bar>i\<bar> \<Longrightarrow> py_str (PyInt i) = Inl ValueError"
proof -
  assume "10 ^ int_max_str_digits \<le> \<bar>i\<bar>"
  then have "(10::nat) ^ int_max_str_digits \<le> nat \<bar>i\<bar>" by (simp add: le_nat_iff)
  then have "int_max_str_digits < length (digits (nat \<bar>i\<bar>))" by (rule digits_length_lower)
  then show ?thesis by (simp add: Let_def)
qed

lemma process_transaction_huge_amount:
  "10 ^ int_max_str_digits \<le> \<bar>i\<bar> \<Longrightarrow>
   fst (TransactionProcessor_process_transaction s [t, PyInt i] [] e) = Inl ValueError"
  by (rule process_transaction_raises) (simp add: py_str_huge del: py_str.simps)

lemma step_Submit_sel:
  "requests (step (Submit s m as ks pr) w) =
     requests w @ [\<lparr>servant = s, method_fn = m, args = as, kwargs = ks, priority = pr,
                    future = length (futures w)\<rparr>]"
  "queue (step (Submit s m as ks pr) w) =
     heappush (MethodRequest_lt (requests (step (Submit s m as ks pr) w))) (queue w)
       (length (requests w))"
  "worker (step (Submit s m as ks pr) w) = worker w"
  "executed (step (Submit s m as ks pr) w) = executed w"
  "futures (step (Submit s m as ks pr) w) = futures w @ [PyNone]"
  "env (step (Submit s m as ks pr) w) = env w"
  "threads (step (Submit s m as ks pr) w) = threads w"
  by (simp_all add: MethodRequest_init_def Future_init_def Let_def)

lemma submit_as_step:
  "submit p t a pr w =
     step (Submit (proxy_servant p) TransactionProcessor_process_transaction [t, a] [] pr) w"
  unfolding submit_eq step_Submit ..

text \<open>An iteration that takes a request whose operation returns.\<close>

lemma Scheduler_run_iter_pop:
  assumes "worker w = Alive" "queue w \<noteq> []"
    "heappop (MethodRequest_lt (requests w)) (queue w) = Inr (r, q)" "never_raises w r"
  shows "worker (Scheduler_run_iter w) = Alive" "queue (Scheduler_run_iter w) = q"
    "executed (Scheduler_run_iter w) = executed w @ [r]"
    "requests (Scheduler_run_iter w) = requests w"
    "never_raises (Scheduler_run_iter w) = never_raises w"
proof -
  let ?u = "w\<lparr>queue := q, executed := executed w @ [r]\<rparr>"
  have cu: "call ?u = call w" "future_of ?u = future_of w"
    by (simp_all add: call_def future_of_def fun_eq_iff)
  obtain res e' where c: "call w r (env w) = (res, e')" by (cases "call w r (env w)") auto
  have "\<not> isl (fst (call w r (env w)))" using assms(4) unfolding never_raises_def by blast
  then have "\<not> isl res" unfolding c by simp
  then obtain v where v: "res = Inr v" by (cases res) auto
  have exu: "MethodRequest_execute r ?u = (Inr (), Future_set_result (future_of w r) v (?u\<lparr>env := e'\<rparr>))"
    unfolding MethodRequest_execute_call cu using c v by simp
  have it: "Scheduler_run_iter w = Future_set_result (future_of w r) v (?u\<lparr>env := e'\<rparr>)"
    unfolding Scheduler_run_iter_take[OF assms(1,2,3)] exu by simp
  show "worker (Scheduler_run_iter w) = Alive" unfolding it using assms(1) by simp
  show "queue (Scheduler_run_iter w) = q" unfolding it by simp
  show "executed (Scheduler_run_iter w) = executed w @ [r]" unfolding it by simp
  show "requests (Scheduler_run_iter w) = requests w" by simp
  show "never_raises (Scheduler_run_iter w) = never_raises w" by (rule never_raises_cong) simp
qed

text \<open>One, two and three pending requests, taken one after the other.\<close>

lemma Scheduler_run_three:
  assumes "worker w = Alive" "queue w = q0" "q0 \<noteq> []" "q1 \<noteq> []" "q2 \<noteq> []"
    "heappop (MethodRequest_lt (requests w)) q0 = Inr (a, q1)"
    "heappop (MethodRequest_lt (requests w)) q1 = Inr (b, q2)"
    "heappop (MethodRequest_lt (requests w)) q2 = Inr (c, q3)"
    "never_raises w a" "never_raises w b" "never_raises w c"
  shows "executed (Scheduler_run 3 w) = executed w @ [a, b, c]"
proof -
  let ?w1 = "Scheduler_run_iter w"
  let ?w2 = "Scheduler_run_iter ?w1"
  let ?w3 = "Scheduler_run_iter ?w2"
  note s1 = Scheduler_run_iter_pop[of w a q1]
  have 1: "worker ?w1 = Alive" "queue ?w1 = q1" "executed ?w1 = executed w @ [a]"
    "requests ?w1 = requests w" "never_raises ?w1 = never_raises w"
    using s1 assms by simp_all
  note s2 = Scheduler_run_iter_pop[of ?w1 b q2]
  have 2: "worker ?w2 = Alive" "queue ?w2 = q2" "executed ?w2 = executed w @ [a, b]"
    "requests ?w2 = requests w" "never_raises ?w2 = never_raises w"
    using s2 1 assms by simp_all
  note s3 = Scheduler_run_iter_pop[of ?w2 c q3]
  have 3: "executed ?w3 = executed w @ [a, b, c]"
    using s3 2 assms by simp
  show ?thesis using 3 by (simp add: Scheduler_run_numeral)
qed

lemma Scheduler_run_two:
  assumes "worker w = Alive" "queue w = q0" "q0 \<noteq> []" "q1 \<noteq> []"
    "heappop (MethodRequest_lt (requests w)) q0 = Inr (a, q1)"
    "heappop (MethodRequest_lt (requests w)) q1 = Inr (b, q2)"
    "never_raises w a" "never_raises w b"
  shows "executed (Scheduler_run 2 w) = executed w @ [a, b]"
proof -
  let ?w1 = "Scheduler_run_iter w"
  let ?w2 = "Scheduler_run_iter ?w1"
  note s1 = Scheduler_run_iter_pop[of w a q1]
  have 1: "worker ?w1 = Alive" "queue ?w1 = q1" "executed ?w1 = executed w @ [a]"
    "requests ?w1 = requests w" "never_raises ?w1 = never_raises w"
    using s1 assms by simp_all
  note s2 = Scheduler_run_iter_pop[of ?w1 b q2]
  have 2: "executed ?w2 = executed w @ [a, b]"
    using s2 1 assms by simp
  show ?thesis using 2 by (simp add: Scheduler_run_numeral)
qed

lemma Scheduler_run_one:
  assumes "worker w = Alive" "queue w = q0" "q0 \<noteq> []"
    "heappop (MethodRequest_lt (requests w)) q0 = Inr (a, q1)" "never_raises w a"
  shows "executed (Scheduler_run 1 w) = executed w @ [a]"
  using Scheduler_run_iter_pop(3)[of w a q1] assms by simp

lemmas heap_eval = heappop_def siftup_def siftdown_def heappush_def Let_def
  siftdown_loop.simps siftup_loop.simps nth_append MethodRequest_lt_def

lemma spec_priorities_state:
  "queue spec_priorities = [1, 0, 2]"
  "never_raises spec_priorities 0" "never_raises spec_priorities (Suc 0)"
  "never_raises spec_priorities 2"
  unfolding spec_priorities_def
  by (simp_all add: step_Submit_sel heappush_Nil heap_eval never_raises_def call_def
      process_transaction_returns str_eval del: step.simps)

lemma three_ties_state:
  "queue three_ties = [0, 1, 2]"
  "never_raises three_ties 0" "never_raises three_ties (Suc 0)" "never_raises three_ties 2"
  unfolding three_ties_def
  by (simp_all add: step_Submit_sel heappush_Nil heap_eval never_raises_def call_def
      process_transaction_returns str_eval del: step.simps)

section \<open>Operation failure\<close>

text \<open>
  C1, as stated: an exception raised by the bound operation is captured, delivered through
  the Future as a failure outcome, and the worker goes on with the next request. In the
  failure scenario request 0 (priority 5) raises: the exception leaves \<^verbatim>\<open>execute\<close> and
  \<^verbatim>\<open>run\<close>, the worker thread is dead, the Future of request 0 is still empty (a caller of
  \<^verbatim>\<open>get_result\<close> waits), and request 1 stays in the queue.
\<close>

theorem C1_counterexample:
  "worker (Scheduler_run 2 failure_scenario) = Dead (Exc ''ValueError'') \<and>
   executed (Scheduler_run 2 failure_scenario) = [0] \<and>
   queue (Scheduler_run 2 failure_scenario) = [1] \<and>
   futures (Scheduler_run 2 failure_scenario) = [PyNone, PyNone] \<and>
   threads (Future_get_result 7 0 (Scheduler_run 2 failure_scenario)) 7 = Waiting 0"
  by (simp add: numeral_2_eq_2 scenario_eval run_eval str_eval)

text \<open>
  C1, amended: when the bound operation of a request raises \<open>e\<close>, \<^verbatim>\<open>execute\<close> raises \<open>e\<close>
  without calling \<^verbatim>\<open>set_result\<close> (no Future changes, no waiter is woken); when the worker
  takes that request, \<open>e\<close> leaves \<^verbatim>\<open>run\<close>, the worker thread ends, and no further iteration
  changes the state.
\<close>

theorem C1_exception_ends_worker:
  assumes "fst (method_fn (requests w ! r) (servant (requests w ! r)) (args (requests w ! r))
             (kwargs (requests w ! r)) (env w)) = Inl e"
  shows "fst (MethodRequest_execute r w) = Inl e \<and>
     futures (snd (MethodRequest_execute r w)) = futures w \<and>
     threads (snd (MethodRequest_execute r w)) = threads w \<and>
     (worker w = Alive \<and> queue w \<noteq> [] \<and> queue w ! 0 = r \<longrightarrow>
        worker (Scheduler_run_iter w) = Dead e \<and>
        futures (Scheduler_run_iter w) = futures w \<and>
        threads (Scheduler_run_iter w) = threads w \<and>
        Scheduler_run n (Scheduler_run_iter w) = Scheduler_run_iter w)"
proof -
  obtain res e' where c: "method_fn (requests w ! r) (servant (requests w ! r))
      (args (requests w ! r)) (kwargs (requests w ! r)) (env w) = (res, e')"
    by (cases "method_fn (requests w ! r) (servant (requests w ! r))
      (args (requests w ! r)) (kwargs (requests w ! r)) (env w)") auto
  then have res: "res = Inl e" using assms by simp
  have ex: "MethodRequest_execute r u = (Inl e, u\<lparr>env := e'\<rparr>)"
    if "requests u = requests w" "env u = env w" for u :: "'a world"
    using c res that by (simp add: MethodRequest_execute_def Let_def)
  have a: "fst (MethodRequest_execute r w) = Inl e"
    "futures (snd (MethodRequest_execute r w)) = futures w"
    "threads (snd (MethodRequest_execute r w)) = threads w"
    using ex[of w] by simp_all
  have b: "worker (Scheduler_run_iter w) = Dead e \<and>
        futures (Scheduler_run_iter w) = futures w \<and>
        threads (Scheduler_run_iter w) = threads w \<and>
        Scheduler_run n (Scheduler_run_iter w) = Scheduler_run_iter w"
    if h: "worker w = Alive" "queue w \<noteq> []" "queue w ! 0 = r"
  proof -
    obtain q where pop: "heappop (MethodRequest_lt (requests w)) (queue w) = Inr (r, q)"
      using heappop_head[OF h(2)] h(3) by auto
    let ?u = "w\<lparr>queue := q, executed := executed w @ [r]\<rparr>"
    have it: "Scheduler_run_iter w = ?u\<lparr>env := e', worker := Dead e\<rparr>"
      using Scheduler_run_iter_take[OF h(1,2) pop] ex[of ?u] by simp
    have d: "worker (Scheduler_run_iter w) = Dead e" unfolding it by simp
    show ?thesis using d Scheduler_run_dead[OF d, of n] unfolding it by simp
  qed
  show ?thesis using a b by blast
qed

text \<open>
  The hypotheses of C1 (amended) hold in the failure scenario.
\<close>

theorem C1_exception_ends_worker_witness:
  "fst (method_fn (requests failure_scenario ! 0) (servant (requests failure_scenario ! 0))
         (args (requests failure_scenario ! 0)) (kwargs (requests failure_scenario ! 0))
         (env failure_scenario)) = Inl (Exc ''ValueError'') \<and>
   worker failure_scenario = Alive \<and> queue failure_scenario \<noteq> [] \<and>
   queue failure_scenario ! 0 = 0 \<and>
   fst (MethodRequest_execute 0 failure_scenario) = Inl (Exc ''ValueError'') \<and>
   worker (Scheduler_run_iter failure_scenario) = Dead (Exc ''ValueError'') \<and>
   futures (Scheduler_run_iter failure_scenario) = futures failure_scenario \<and>
   Scheduler_run 5 (Scheduler_run_iter failure_scenario) = Scheduler_run_iter failure_scenario"
proof -
  have h: "fst (method_fn (requests failure_scenario ! 0) (servant (requests failure_scenario ! 0))
         (args (requests failure_scenario ! 0)) (kwargs (requests failure_scenario ! 0))
         (env failure_scenario)) = Inl (Exc ''ValueError'')"
    by (simp add: failure_scenario_state raising_op_def)
  show ?thesis
    using h C1_exception_ends_worker[OF h, of 5] by (simp add: failure_scenario_state)
qed

section \<open>Future: single assignment\<close>

text \<open>
  C2, as stated: a second \<^verbatim>\<open>set\<close> on a filled cell raises a double-fill error and the
  stored value never changes after the first \<^verbatim>\<open>set\<close>. \<^verbatim>\<open>set_result\<close> has no such check:
  on a Future holding 1, \<^verbatim>\<open>set_result(2)\<close> returns normally and the Future holds 2.
\<close>

theorem C2_counterexample:
  "futures (Future_set_result 0 (PyInt 2) (Future_set_result 0 (PyInt 1) one_future)) ! 0 = PyInt 2
   \<and> futures (Future_set_result 0 (PyInt 1) one_future) ! 0 = PyInt 1"
  by (simp add: one_future_def Future_init_def Scheduler_init_def)

text \<open>
  C2, amended: \<^verbatim>\<open>set_result\<close> never raises; every call stores its argument, so after two
  calls on the same Future the stored value is the one of the second call.
\<close>

theorem C2_set_result_overwrites:
  "f < length (futures w) \<Longrightarrow>
   futures (Future_set_result f v1 w) ! f = v1 \<and>
   futures (Future_set_result f v2 (Future_set_result f v1 w)) ! f = v2"
  by simp

text \<open>
  The hypothesis of C2 (amended) holds for the one Future of a fresh program.
\<close>

theorem C2_set_result_overwrites_witness:
  "(0::nat) < length (futures one_future) \<and>
   futures (Future_set_result 0 (PyInt 1) one_future) ! 0 = PyInt 1 \<and>
   futures (Future_set_result 0 (PyStr ''x'') (Future_set_result 0 (PyInt 1) one_future)) ! 0 = PyStr ''x''"
proof -
  have h: "(0::nat) < length (futures one_future)"
    by (simp add: one_future_def Future_init_def Scheduler_init_def)
  show ?thesis
    using h C2_set_result_overwrites[OF h, of "PyInt 1" "PyStr ''x''"] by simp
qed

section \<open>Order of execution\<close>

text \<open>
  C3, as stated: for every pair A, B in the queue together, A is executed before B iff
  A.priority > B.priority. Two requests of equal priority are executed one before the
  other all the same: request 0 is executed before request 1 although 5 > 5 is false.
\<close>

theorem C3_counterexample:
  "queue tie_scenario = [0, 1] \<and>
   newly_executed tie_scenario (Scheduler_run 2 tie_scenario) = [0, 1] \<and>
   \<not> (executed_before (newly_executed tie_scenario (Scheduler_run 2 tie_scenario)) 0 1
        \<longleftrightarrow> priority_of tie_scenario 0 > priority_of tie_scenario 1)"
proof -
  have q: "queue tie_scenario = [0, 1]"
    by (simp add: tie_scenario_def submit_sel heappush_Nil run_eval str_eval)
  have n: "newly_executed tie_scenario (Scheduler_run 2 tie_scenario) = [0, 1]"
    by (simp add: Scheduler_run_numeral tie_scenario_def submit_sel heappush_Nil run_eval str_eval)
  have b: "executed_before [0, 1] 0 1"
    by (simp add: executed_before_def Ex_less_Suc)
  have p: "\<not> priority_of tie_scenario 0 > priority_of tie_scenario 1"
    by (simp add: tie_scenario_def submit_sel priority_of_def)
  show ?thesis using q n b p by simp
qed

text \<open>
  C3, amended: let A and B be in the queue together, in a well-formed state, and let
  anything follow (submissions of new requests, iterations of the worker, calls and
  wake-ups of \<^verbatim>\<open>get_result\<close>, in any order \<open>evs\<close>). If A.priority > B.priority and B is
  executed, then A is executed, and before B; for A and B of different priorities that are
  both executed, A is executed before B iff A.priority > B.priority. In particular, three
  requests with priorities 1, 10, 5, whatever their servants, operations and arguments,
  submitted in that order while the queue is empty and the worker is not yet taking
  requests, are executed in the order 10, 5, 1, provided their operations return normally
  (an operation that raises ends the worker, see C1).
\<close>

theorem C3_priority_order:
  "(wf w \<and> A \<in> set (queue w) \<and> B \<in> set (queue w) \<longrightarrow>
      (priority_of w A > priority_of w B \<and> B \<in> set (newly_executed w (fold step evs w)) \<longrightarrow>
         A \<in> set (newly_executed w (fold step evs w)) \<and>
         executed_before (newly_executed w (fold step evs w)) A B) \<and>
      (priority_of w A \<noteq> priority_of w B \<and>
       A \<in> set (newly_executed w (fold step evs w)) \<and>
       B \<in> set (newly_executed w (fold step evs w)) \<longrightarrow>
         (executed_before (newly_executed w (fold step evs w)) A B
            \<longleftrightarrow> priority_of w A > priority_of w B))) \<and>
   (queue u = [] \<and> worker u = Alive \<and>
    (\<forall>r \<in> set (queue (fold step [Submit s1 m1 as1 ks1 1, Submit s2 m2 as2 ks2 10,
                                   Submit s3 m3 as3 ks3 5] u)).
        never_raises (fold step [Submit s1 m1 as1 ks1 1, Submit s2 m2 as2 ks2 10,
                                 Submit s3 m3 as3 ks3 5] u) r) \<longrightarrow>
      map (priority_of (fold step [Submit s1 m1 as1 ks1 1, Submit s2 m2 as2 ks2 10,
                                   Submit s3 m3 as3 ks3 5] u))
        (newly_executed u
           (Scheduler_run 3 (fold step [Submit s1 m1 as1 ks1 1, Submit s2 m2 as2 ks2 10,
                                        Submit s3 m3 as3 ks3 5] u)))
      = [10, 5, 1])"
proof (intro conjI impI)
  assume h: "wf w \<and> A \<in> set (queue w) \<and> B \<in> set (queue w)"
  let ?ex = "newly_executed w (fold step evs w)"
  {
    assume a: "priority_of w A > priority_of w B \<and> B \<in> set ?ex"
    then have "A \<in> set ?ex \<and> executed_before ?ex A B"
      using run_events_order(2)[of w A B evs] h by blast
    then show "A \<in> set ?ex" "executed_before ?ex A B" by simp_all
  }
  {
    assume a: "priority_of w A \<noteq> priority_of w B \<and> A \<in> set ?ex \<and> B \<in> set ?ex"
    show "executed_before ?ex A B \<longleftrightarrow> priority_of w A > priority_of w B"
    proof (cases "priority_of w A > priority_of w B")
      case True
      then show ?thesis using run_events_order(2)[of w A B evs] h a by blast
    next
      case False
      then have "priority_of w B > priority_of w A" using a by simp
      then have "\<not> executed_before ?ex A B" using run_events_order(1)[of w B A evs] h by blast
      then show ?thesis using False by simp
    qed
  }
next
  let ?n = "length (requests u)"
  define U where "U = fold step [Submit s1 m1 as1 ks1 1, Submit s2 m2 as2 ks2 10,
                                   Submit s3 m3 as3 ks3 5] u"
  assume "queue u = [] \<and> worker u = Alive \<and>
    (\<forall>r \<in> set (queue (fold step [Submit s1 m1 as1 ks1 1, Submit s2 m2 as2 ks2 10,
                                   Submit s3 m3 as3 ks3 5] u)).
        never_raises (fold step [Submit s1 m1 as1 ks1 1, Submit s2 m2 as2 ks2 10,
                                 Submit s3 m3 as3 ks3 5] u) r)"
  then have u: "queue u = []" "worker u = Alive" "\<forall>r \<in> set (queue U). never_raises U r"
    unfolding U_def by blast+
  have q: "queue U = [Suc ?n, ?n, Suc (Suc ?n)]"
    unfolding U_def using u(1) by (simp add: step_Submit_sel heappush_Nil heap_eval del: step.simps)
  have w: "worker U = Alive" "executed U = executed u"
    unfolding U_def using u(2) by (simp_all add: step_Submit_sel del: step.simps)
  have rq: "requests U =
      requests u @ [\<lparr>servant = s1, method_fn = m1, args = as1, kwargs = ks1, priority = 1,
                     future = length (futures u)\<rparr>,
                    \<lparr>servant = s2, method_fn = m2, args = as2, kwargs = ks2, priority = 10,
                     future = Suc (length (futures u))\<rparr>,
                    \<lparr>servant = s3, method_fn = m3, args = as3, kwargs = ks3, priority = 5,
                     future = Suc (Suc (length (futures u)))\<rparr>]"
    unfolding U_def by (simp add: step_Submit_sel del: step.simps)
  have nr: "never_raises U (Suc ?n)" "never_raises U (Suc (Suc ?n))" "never_raises U ?n"
    using u(3) unfolding q by simp_all
  have p1: "heappop (MethodRequest_lt (requests U)) [Suc ?n, ?n, Suc (Suc ?n)]
      = Inr (Suc ?n, [Suc (Suc ?n), ?n])"
    unfolding rq by (simp add: heap_eval)
  have p2: "heappop (MethodRequest_lt (requests U)) [Suc (Suc ?n), ?n] = Inr (Suc (Suc ?n), [?n])"
    unfolding rq by (simp add: heap_eval)
  have p3: "heappop (MethodRequest_lt (requests U)) [?n] = Inr (?n, [])"
    unfolding rq by (simp add: heap_eval)
  have "executed (Scheduler_run 3 U) = executed U @ [Suc ?n, Suc (Suc ?n), ?n]"
    by (rule Scheduler_run_three[OF w(1) q _ _ _ p1 p2 p3 nr]) simp_all
  then have "newly_executed u (Scheduler_run 3 U) = [Suc ?n, Suc (Suc ?n), ?n]"
    by (simp add: newly_executed_def w(2))
  then have "map (priority_of U) (newly_executed u (Scheduler_run 3 U)) = [10, 5, 1]"
    by (simp add: priority_of_def rq nth_append)
  then show "map (priority_of (fold step [Submit s1 m1 as1 ks1 1, Submit s2 m2 as2 ks2 10,
                                   Submit s3 m3 as3 ks3 5] u))
        (newly_executed u
           (Scheduler_run 3 (fold step [Submit s1 m1 as1 ks1 1, Submit s2 m2 as2 ks2 10,
                                        Submit s3 m3 as3 ks3 5] u)))
      = [10, 5, 1]"
    unfolding U_def .
qed

text \<open>
  The hypotheses of C3 (amended) hold in the example of the source, also when a fourth
  transaction of priority 7 is submitted after the worker's first iteration, and for three
  transactions of priorities 1, 10, 5 submitted to a fresh Scheduler.
\<close>

theorem C3_priority_order_witness:
  "wf example_usage \<and> 2 \<in> set (queue example_usage) \<and> 1 \<in> set (queue example_usage) \<and>
   priority_of example_usage 2 > priority_of example_usage 1 \<and>
   1 \<in> set (newly_executed example_usage
     (fold step [Iterate, Submit 0 TransactionProcessor_process_transaction
                            [PyStr ''T1004'', PyInt 70] [] 7, Iterate, Iterate, Iterate]
        example_usage)) \<and>
   2 \<in> set (newly_executed example_usage
     (fold step [Iterate, Submit 0 TransactionProcessor_process_transaction
                            [PyStr ''T1004'', PyInt 70] [] 7, Iterate, Iterate, Iterate]
        example_usage)) \<and>
   executed_before (newly_executed example_usage
     (fold step [Iterate, Submit 0 TransactionProcessor_process_transaction
                            [PyStr ''T1004'', PyInt 70] [] 7, Iterate, Iterate, Iterate]
        example_usage)) 2 1 \<and>
   queue (Scheduler_init e0) = [] \<and> worker (Scheduler_init e0) = Alive \<and>
   queue spec_priorities = [1, 0, 2] \<and>
   never_raises spec_priorities 0 \<and> never_raises spec_priorities 1 \<and>
   never_raises spec_priorities 2 \<and>
   map (priority_of spec_priorities)
     (newly_executed (Scheduler_init e0) (Scheduler_run 3 spec_priorities)) = [10, 5, 1]"
proof -
  let ?evs = "[Iterate, Submit 0 TransactionProcessor_process_transaction
                            [PyStr ''T1004'', PyInt 70] [] 7, Iterate, Iterate, Iterate]"
  have h: "wf example_usage \<and> 2 \<in> set (queue example_usage) \<and> 1 \<in> set (queue example_usage)"
    "priority_of example_usage 2 > priority_of example_usage 1 \<and>
     1 \<in> set (newly_executed example_usage (fold step ?evs example_usage))"
    by (simp_all only: example_usage_overtaken)
       (simp_all add: wf_example_usage example_usage_state)
  have g: "queue (Scheduler_init e0) = [] \<and> worker (Scheduler_init e0) = Alive \<and>
     (\<forall>r \<in> set (queue spec_priorities). never_raises spec_priorities r)"
    by (simp add: spec_priorities_state)
  note t = C3_priority_order[where w = example_usage and A = 2 and B = 1 and evs = ?evs
      and u = "Scheduler_init e0"
      and ?s1.0 = 0 and ?m1.0 = TransactionProcessor_process_transaction
      and ?as1.0 = "[PyStr ''a'', PyInt 100]" and ?ks1.0 = "[]"
      and ?s2.0 = 0 and ?m2.0 = TransactionProcessor_process_transaction
      and ?as2.0 = "[PyStr ''b'', PyInt 200]" and ?ks2.0 = "[]"
      and ?s3.0 = 0 and ?m3.0 = TransactionProcessor_process_transaction
      and ?as3.0 = "[PyStr ''c'', PyInt 300]" and ?ks3.0 = "[]", folded spec_priorities_def]
  show ?thesis
    using h g t spec_priorities_state by simp
qed

text \<open>
  C4, as stated: requests of equal priority are executed in the order of submission. The
  queue is a binary heap that compares priorities only. Four requests of priority 5,
  submitted as 0, 1, 2, 3, are executed as 0, 2, 1, 3; and two requests of priority 5
  followed by one of priority 10, all submitted before the worker takes any, are executed
  as 2, 1, 0: the two of equal priority in reverse order.
\<close>

theorem C4_counterexample:
  "queue four_ties = [0, 1, 2, 3] \<and>
   map (priority_of four_ties) [0, 1, 2, 3] = [5, 5, 5, 5] \<and>
   newly_executed four_ties (Scheduler_run 4 four_ties) = [0, 2, 1, 3] \<and>
   map (priority_of ties_then_higher) [0, 1, 2] = [5, 5, 10] \<and>
   newly_executed ties_then_higher (Scheduler_run 3 ties_then_higher) = [2, 1, 0]"
proof -
  have q: "queue four_ties = [0, 1, 2, 3]"
    by (simp add: four_ties_def submit_sel heappush_Nil run_eval)
  have p: "map (priority_of four_ties) [0, 1, 2, 3] = [5, 5, 5, 5]"
    by (simp add: four_ties_def submit_sel priority_of_def)
  have n: "newly_executed four_ties (Scheduler_run 4 four_ties) = [0, 2, 1, 3]"
    by (simp add: Scheduler_run_numeral four_ties_def submit_sel heappush_Nil run_eval str_eval)
  have p': "map (priority_of ties_then_higher) [0, 1, 2] = [5, 5, 10]"
    by (simp add: ties_then_higher_def submit_sel priority_of_def)
  have n': "newly_executed ties_then_higher (Scheduler_run 3 ties_then_higher) = [2, 1, 0]"
    by (simp add: Scheduler_run_numeral ties_then_higher_def submit_sel heappush_Nil run_eval
        str_eval)
  show ?thesis using q p n p' n' by simp
qed

text \<open>
  C4, amended: one, two or three requests of the same priority, whatever their servants,
  operations and arguments, that are submitted to an empty queue and are the only
  requests in it (nothing else is submitted, and the worker takes none before the last
  one is submitted) are executed in the order of submission, provided their operations
  return normally.
\<close>

theorem C4_three_ties_fifo:
  "queue u = [] \<and> worker u = Alive \<longrightarrow>
     ((\<forall>r \<in> set (queue (fold step [Submit s1 m1 as1 ks1 pr] u)).
          never_raises (fold step [Submit s1 m1 as1 ks1 pr] u) r) \<longrightarrow>
        newly_executed u (Scheduler_run 1 (fold step [Submit s1 m1 as1 ks1 pr] u))
          = [length (requests u)]) \<and>
     ((\<forall>r \<in> set (queue (fold step [Submit s1 m1 as1 ks1 pr, Submit s2 m2 as2 ks2 pr] u)).
          never_raises (fold step [Submit s1 m1 as1 ks1 pr, Submit s2 m2 as2 ks2 pr] u) r) \<longrightarrow>
        newly_executed u
          (Scheduler_run 2 (fold step [Submit s1 m1 as1 ks1 pr, Submit s2 m2 as2 ks2 pr] u))
          = [length (requests u), Suc (length (requests u))]) \<and>
     ((\<forall>r \<in> set (queue (fold step [Submit s1 m1 as1 ks1 pr, Submit s2 m2 as2 ks2 pr,
                                     Submit s3 m3 as3 ks3 pr] u)).
          never_raises (fold step [Submit s1 m1 as1 ks1 pr, Submit s2 m2 as2 ks2 pr,
                                   Submit s3 m3 as3 ks3 pr] u) r) \<longrightarrow>
        newly_executed u
          (Scheduler_run 3 (fold step [Submit s1 m1 as1 ks1 pr, Submit s2 m2 as2 ks2 pr,
                                       Submit s3 m3 as3 ks3 pr] u))
          = [length (requests u), Suc (length (requests u)), Suc (Suc (length (requests u)))])"
proof (intro impI conjI)
  let ?n = "length (requests u)"
  assume u: "queue u = [] \<and> worker u = Alive"
  {
    define U where "U = fold step [Submit s1 m1 as1 ks1 pr] u"
    assume "\<forall>r \<in> set (queue (fold step [Submit s1 m1 as1 ks1 pr] u)).
          never_raises (fold step [Submit s1 m1 as1 ks1 pr] u) r"
    then have nrU: "\<forall>r \<in> set (queue U). never_raises U r" unfolding U_def .
    have q: "queue U = [?n]"
      unfolding U_def using u by (simp add: step_Submit_sel heappush_Nil del: step.simps)
    have w: "worker U = Alive" "executed U = executed u"
      unfolding U_def using u by (simp_all add: step_Submit_sel del: step.simps)
    have nr: "never_raises U ?n" using nrU unfolding q by simp
    have p1: "heappop (MethodRequest_lt (requests U)) [?n] = Inr (?n, [])"
      by (simp add: heap_eval)
    have "executed (Scheduler_run 1 U) = executed U @ [?n]"
      by (rule Scheduler_run_one[OF w(1) q _ p1 nr]) simp
    then have "newly_executed u (Scheduler_run 1 U) = [?n]"
      by (simp add: newly_executed_def w(2))
    then show "newly_executed u (Scheduler_run 1 (fold step [Submit s1 m1 as1 ks1 pr] u)) = [?n]"
      unfolding U_def .
  }
  {
    define U where "U = fold step [Submit s1 m1 as1 ks1 pr, Submit s2 m2 as2 ks2 pr] u"
    assume "\<forall>r \<in> set (queue (fold step [Submit s1 m1 as1 ks1 pr, Submit s2 m2 as2 ks2 pr] u)).
          never_raises (fold step [Submit s1 m1 as1 ks1 pr, Submit s2 m2 as2 ks2 pr] u) r"
    then have nrU: "\<forall>r \<in> set (queue U). never_raises U r" unfolding U_def .
    have q: "queue U = [?n, Suc ?n]"
      unfolding U_def using u
      by (simp add: step_Submit_sel heappush_Nil heap_eval del: step.simps)
    have w: "worker U = Alive" "executed U = executed u"
      unfolding U_def using u by (simp_all add: step_Submit_sel del: step.simps)
    have rq: "requests U =
      requests u @ [\<lparr>servant = s1, method_fn = m1, args = as1, kwargs = ks1, priority = pr,
                     future = length (futures u)\<rparr>,
                    \<lparr>servant = s2, method_fn = m2, args = as2, kwargs = ks2, priority = pr,
                     future = Suc (length (futures u))\<rparr>]"
      unfolding U_def by (simp add: step_Submit_sel del: step.simps)
    have nr: "never_raises U ?n" "never_raises U (Suc ?n)" using nrU unfolding q by simp_all
    have p1: "heappop (MethodRequest_lt (requests U)) [?n, Suc ?n] = Inr (?n, [Suc ?n])"
      unfolding rq by (simp add: heap_eval)
    have p2: "heappop (MethodRequest_lt (requests U)) [Suc ?n] = Inr (Suc ?n, [])"
      by (simp add: heap_eval)
    have "executed (Scheduler_run 2 U) = executed U @ [?n, Suc ?n]"
      by (rule Scheduler_run_two[OF w(1) q _ _ p1 p2 nr]) simp_all
    then have "newly_executed u (Scheduler_run 2 U) = [?n, Suc ?n]"
      by (simp add: newly_executed_def w(2))
    then show "newly_executed u
          (Scheduler_run 2 (fold step [Submit s1 m1 as1 ks1 pr, Submit s2 m2 as2 ks2 pr] u))
          = [?n, Suc ?n]"
      unfolding U_def .
  }
  {
    define U where "U = fold step [Submit s1 m1 as1 ks1 pr, Submit s2 m2 as2 ks2 pr,
                                     Submit s3 m3 as3 ks3 pr] u"
    assume "\<forall>r \<in> set (queue (fold step [Submit s1 m1 as1 ks1 pr, Submit s2 m2 as2 ks2 pr,
                                     Submit s3 m3 as3 ks3 pr] u)).
          never_raises (fold step [Submit s1 m1 as1 ks1 pr, Submit s2 m2 as2 ks2 pr,
                                   Submit s3 m3 as3 ks3 pr] u) r"
    then have nrU: "\<forall>r \<in> set (queue U). never_raises U r" unfolding U_def .
    have q: "queue U = [?n, Suc ?n, Suc (Suc ?n)]"
      unfolding U_def using u
      by (simp add: step_Submit_sel heappush_Nil heap_eval del: step.simps)
    have w: "worker U = Alive" "executed U = executed u"
      unfolding U_def using u by (simp_all add: step_Submit_sel del: step.simps)
    have rq: "requests U =
      requests u @ [\<lparr>servant = s1, method_fn = m1, args = as1, kwargs = ks1, priority = pr,
                     future = length (futures u)\<rparr>,
                    \<lparr>servant = s2, method_fn = m2, args = as2, kwargs = ks2, priority = pr,
                     future = Suc (length (futures u))\<rparr>,
                    \<lparr>servant = s3, method_fn = m3, args = as3, kwargs = ks3, priority = pr,
                     future = Suc (Suc (length (futures u)))\<rparr>]"
      unfolding U_def by (simp add: step_Submit_sel del: step.simps)
    have nr: "never_raises U ?n" "never_raises U (Suc ?n)" "never_raises U (Suc (Suc ?n))"
      using nrU unfolding q by simp_all
    have p1: "heappop (MethodRequest_lt (requests U)) [?n, Suc ?n, Suc (Suc ?n)]
        = Inr (?n, [Suc ?n, Suc (Suc ?n)])"
      unfolding rq by (simp add: heap_eval)
    have p2: "heappop (MethodRequest_lt (requests U)) [Suc ?n, Suc (Suc ?n)]
        = Inr (Suc ?n, [Suc (Suc ?n)])"
      unfolding rq by (simp add: heap_eval)
    have p3: "heappop (MethodRequest_lt (requests U)) [Suc (Suc ?n)] = Inr (Suc (Suc ?n), [])"
      by (simp add: heap_eval)
    have "executed (Scheduler_run 3 U) = executed U @ [?n, Suc ?n, Suc (Suc ?n)]"
      by (rule Scheduler_run_three[OF w(1) q _ _ _ p1 p2 p3 nr]) simp_all
    then have "newly_executed u (Scheduler_run 3 U) = [?n, Suc ?n, Suc (Suc ?n)]"
      by (simp add: newly_executed_def w(2))
    then show "newly_executed u
          (Scheduler_run 3 (fold step [Submit s1 m1 as1 ks1 pr, Submit s2 m2 as2 ks2 pr,
                                       Submit s3 m3 as3 ks3 pr] u))
          = [?n, Suc ?n, Suc (Suc ?n)]"
      unfolding U_def .
  }
qed

text \<open>
  The hypotheses of C4 (amended) hold for three transactions of priority 5 submitted to a
  fresh Scheduler.
\<close>

theorem C4_three_ties_fifo_witness:
  "queue (Scheduler_init e0) = [] \<and> worker (Scheduler_init e0) = Alive \<and>
   queue three_ties = [0, 1, 2] \<and>
   never_raises three_ties 0 \<and> never_raises three_ties 1 \<and> never_raises three_ties 2 \<and>
   newly_executed (Scheduler_init e0) (Scheduler_run 3 three_ties) = [0, 1, 2]"
proof -
  have g: "queue (Scheduler_init e0) = [] \<and> worker (Scheduler_init e0) = Alive" by simp
  have n: "\<forall>r \<in> set (queue three_ties). never_raises three_ties r"
    by (simp add: three_ties_state)
  note t = C4_three_ties_fifo[where u = "Scheduler_init e0" and pr = 5
      and ?s1.0 = 0 and ?m1.0 = TransactionProcessor_process_transaction
      and ?as1.0 = "[PyStr ''A'', PyInt 1]" and ?ks1.0 = "[]"
      and ?s2.0 = 0 and ?m2.0 = TransactionProcessor_process_transaction
      and ?as2.0 = "[PyStr ''B'', PyInt 2]" and ?ks2.0 = "[]"
      and ?s3.0 = 0 and ?m3.0 = TransactionProcessor_process_transaction
      and ?as3.0 = "[PyStr ''C'', PyInt 3]" and ?ks3.0 = "[]", folded three_ties_def]
  show ?thesis
    using g n t three_ties_state by simp
qed

section \<open>Future: blocking read\<close>

lemma fold_Future_wakeup_futures [simp]:
  "futures (fold Future_wakeup ts w) = futures w"
  by (induction ts arbitrary: w) simp_all

lemma fold_Future_wakeup_returned:
  "threads w t = Returned v \<Longrightarrow> threads (fold Future_wakeup ts w) t = Returned v"
proof (induction ts arbitrary: w)
  case Nil
  then show ?case by simp
next
  case (Cons a ts)
  have "threads (Future_wakeup a w) t = Returned v"
    using Cons.prems by (auto simp: Future_wakeup_threads split: thread_state.splits)
  then show ?case using Cons.IH by simp
qed

lemma fold_Future_wakeup_notified:
  "threads w t = Notified f \<Longrightarrow> futures w ! f = v \<Longrightarrow> v \<noteq> PyNone \<Longrightarrow> t \<in> set ts \<Longrightarrow>
   threads (fold Future_wakeup ts w) t = Returned v"
proof (induction ts arbitrary: w)
  case Nil
  then show ?case by simp
next
  case (Cons a ts)
  show ?case
  proof (cases "a = t")
    case True
    then have "threads (Future_wakeup a w) t = Returned v"
      using Cons.prems by (simp add: Future_wakeup_threads)
    then show ?thesis using fold_Future_wakeup_returned by simp
  next
    case False
    then have "threads (Future_wakeup a w) t = Notified f"
      using Cons.prems by (simp add: Future_wakeup_threads split: thread_state.splits)
    moreover have "t \<in> set ts" using False Cons.prems by auto
    ultimately show ?thesis using Cons.IH[of "Future_wakeup a w"] Cons.prems by simp
  qed
qed

text \<open>
  C5, as stated: for every value \<open>v\<close> passed to \<^verbatim>\<open>set\<close>, a waiting \<^verbatim>\<open>get\<close> returns \<open>v\<close> once
  \<^verbatim>\<open>set(v)\<close> occurs. For \<open>v = None\<close> it does not: a thread that waits on an empty Future
  is woken by \<^verbatim>\<open>set_result(None)\<close>, finds \<^verbatim>\<open>_result is None\<close> and waits again; a thread that
  calls \<^verbatim>\<open>get_result\<close> after \<^verbatim>\<open>set_result(None)\<close> waits as well.
\<close>

theorem C5_counterexample:
  "threads (Future_get_result 1 0 one_future) 1 = Waiting 0 \<and>
   threads (Future_wakeup 1 (Future_set_result 0 PyNone (Future_get_result 1 0 one_future))) 1 = Waiting 0 \<and>
   threads (Future_get_result 2 0 (Future_set_result 0 PyNone one_future)) 2 = Waiting 0"
  by (simp add: one_future_def Future_init_def Scheduler_init_def Future_wakeup_threads)

text \<open>
  C5, amended: for every Future and every value \<open>v\<close> other than \<^verbatim>\<open>None\<close>: \<^verbatim>\<open>get_result\<close> on a
  Future that holds \<open>v\<close> returns \<open>v\<close> at once; \<^verbatim>\<open>get_result\<close> on an empty Future waits; after
  \<^verbatim>\<open>set_result(v)\<close> a new caller gets \<open>v\<close>, and every thread that was waiting gets \<open>v\<close> when it
  runs again, in whatever order \<open>ts\<close> the woken threads run.
\<close>

theorem C5_get_result_delivers:
  assumes "v \<noteq> PyNone" "f < length (futures w)"
  shows "(futures w ! f = v \<longrightarrow> threads (Future_get_result t f w) t = Returned v) \<and>
     (futures w ! f = PyNone \<longrightarrow> threads (Future_get_result t f w) t = Waiting f) \<and>
     threads (Future_get_result t f (Future_set_result f v w)) t = Returned v \<and>
     (\<forall>t' \<in> set ts. threads w t' = Waiting f \<longrightarrow>
        threads (fold Future_wakeup ts (Future_set_result f v w)) t' = Returned v)"
proof (intro conjI ballI impI)
  show "futures w ! f = v \<Longrightarrow> threads (Future_get_result t f w) t = Returned v"
    using assms(1) by simp
  show "futures w ! f = PyNone \<Longrightarrow> threads (Future_get_result t f w) t = Waiting f" by simp
  show "threads (Future_get_result t f (Future_set_result f v w)) t = Returned v"
    using assms by simp
next
  fix t' assume t': "t' \<in> set ts" "threads w t' = Waiting f"
  have "threads (Future_set_result f v w) t' = Notified f" using t'(2) by simp
  moreover have "futures (Future_set_result f v w) ! f = v" using assms(2) by simp
  ultimately show "threads (fold Future_wakeup ts (Future_set_result f v w)) t' = Returned v"
    using fold_Future_wakeup_notified assms(1) t'(1) by blast
qed

text \<open>
  The hypotheses of C5 (amended) hold for one Future on which thread 1 waits.
\<close>

theorem C5_get_result_delivers_witness:
  "PyInt 7 \<noteq> PyNone \<and> (0::nat) < length (futures (Future_get_result 1 0 one_future)) \<and>
   threads (Future_get_result 1 0 one_future) 1 = Waiting 0 \<and>
   threads (Future_get_result 2 0 (Future_set_result 0 (PyInt 7) (Future_get_result 1 0 one_future))) 2
     = Returned (PyInt 7) \<and>
   threads (fold Future_wakeup [1] (Future_set_result 0 (PyInt 7) (Future_get_result 1 0 one_future))) 1
     = Returned (PyInt 7)"
proof -
  have h1: "PyInt 7 \<noteq> PyNone" by simp
  have h2: "(0::nat) < length (futures (Future_get_result 1 0 one_future))"
    by (simp add: one_future_def Future_init_def Scheduler_init_def)
  have h3: "threads (Future_get_result 1 0 one_future) 1 = Waiting 0"
    by (simp add: one_future_def Future_init_def Scheduler_init_def)
  show ?thesis
    using h1 h2 h3 C5_get_result_delivers[OF h1 h2, of 2 "[1]"] by simp
qed

text \<open>
  C6: a Future is empty exactly when \<^verbatim>\<open>_result\<close> is \<^verbatim>\<open>None\<close>. A value returned by
  \<^verbatim>\<open>get_result\<close>, at the call or after a wake-up, is never \<^verbatim>\<open>None\<close>; a new Future holds
  \<^verbatim>\<open>None\<close>; after \<^verbatim>\<open>set_result(None)\<close> the Future holds \<^verbatim>\<open>None\<close>, a caller of \<^verbatim>\<open>get_result\<close>
  waits, and a thread that was waiting waits again after it is woken.
\<close>

theorem C6_none_is_empty:
  "(threads (Future_get_result t f w) t = Returned v \<longrightarrow> v \<noteq> PyNone) \<and>
   (threads w t = Notified f \<and> threads (Future_wakeup t w) t = Returned v \<longrightarrow> v \<noteq> PyNone) \<and>
   futures (snd (Future_init w)) ! fst (Future_init w) = PyNone \<and>
   (f < length (futures w) \<longrightarrow>
      futures (Future_set_result f PyNone w) ! f = PyNone \<and>
      threads (Future_get_result t f (Future_set_result f PyNone w)) t = Waiting f \<and>
      (threads w t = Waiting f \<longrightarrow>
         threads (Future_wakeup t (Future_set_result f PyNone w)) t = Waiting f))"
  by (auto simp: Future_wakeup_threads Future_init_def)

text \<open>
  The hypotheses of C6 hold for one Future with a waiting thread.
\<close>

theorem C6_none_is_empty_witness:
  "threads (Future_get_result 1 0 (Future_set_result 0 (PyInt 3) one_future)) 1 = Returned (PyInt 3) \<and>
   PyInt 3 \<noteq> PyNone \<and>
   (0::nat) < length (futures (Future_get_result 1 0 one_future)) \<and>
   threads (Future_get_result 1 0 one_future) 1 = Waiting 0 \<and>
   threads (Future_get_result 2 0 (Future_set_result 0 PyNone (Future_get_result 1 0 one_future))) 2
     = Waiting 0 \<and>
   threads (Future_wakeup 1 (Future_set_result 0 PyNone (Future_get_result 1 0 one_future))) 1
     = Waiting 0"
proof -
  have h1: "(0::nat) < length (futures (Future_get_result 1 0 one_future))"
    by (simp add: one_future_def Future_init_def Scheduler_init_def)
  have h2: "threads (Future_get_result 1 0 one_future) 1 = Waiting 0"
    by (simp add: one_future_def Future_init_def Scheduler_init_def)
  have h3: "threads (Future_get_result 1 0 (Future_set_result 0 (PyInt 3) one_future)) 1
      = Returned (PyInt 3)"
    by (simp add: one_future_def Future_init_def Scheduler_init_def)
  show ?thesis
    using h1 h2 h3
      C6_none_is_empty[of 1 0 "Future_set_result 0 (PyInt 3) one_future" "PyInt 3"]
      C6_none_is_empty[of 2 0 "Future_get_result 1 0 one_future" "PyInt 3"]
      C6_none_is_empty[of 1 0 "Future_get_result 1 0 one_future" "PyInt 3"]
    by simp
qed

section \<open>Progress of the worker\<close>




section \<open>Proxy and MethodRequest\<close>

text \<open>
  C8: \<^verbatim>\<open>Proxy.process_transaction\<close> returns the reference of a Future that did not exist
  before and holds \<^verbatim>\<open>None\<close>; it adds one request, bound to the proxy's servant, to
  \<^verbatim>\<open>TransactionProcessor.process_transaction\<close>, to the two arguments and to that Future;
  the request is added to the queue; the operation is not run (the environment and the
  history of executions are unchanged) and no thread, the caller's included, changes its
  state.
\<close>

theorem C8_proxy_submits:
  "fst (Proxy_process_transaction p transaction_id amount pr w) = length (futures w) \<and>
   futures (snd (Proxy_process_transaction p transaction_id amount pr w)) = futures w @ [PyNone] \<and>
   requests (snd (Proxy_process_transaction p transaction_id amount pr w)) =
     requests w @
       [\<lparr>servant = proxy_servant p, method_fn = TransactionProcessor_process_transaction,
         args = [transaction_id, amount], kwargs = [], priority = pr,
         future = length (futures w)\<rparr>] \<and>
   mset (queue (snd (Proxy_process_transaction p transaction_id amount pr w))) =
     add_mset (length (requests w)) (mset (queue w)) \<and>
   env (snd (Proxy_process_transaction p transaction_id amount pr w)) = env w \<and>
   executed (snd (Proxy_process_transaction p transaction_id amount pr w)) = executed w \<and>
   worker (snd (Proxy_process_transaction p transaction_id amount pr w)) = worker w \<and>
   threads (snd (Proxy_process_transaction p transaction_id amount pr w)) = threads w"
proof -
  have f: "fst (Proxy_process_transaction p transaction_id amount pr w) = length (futures w)"
    by (simp add: Proxy_process_transaction_def MethodRequest_init_def Future_init_def Let_def
        nth_append split: prod.splits)
  have q: "mset (queue (submit p transaction_id amount pr w)) =
      add_mset (length (requests w)) (mset (queue w))"
    by (simp add: submit_sel(7) mset_heappush)
  show ?thesis
    using f q submit_sel(1-6)[of p transaction_id amount pr w] by (simp add: submit_def)
qed

text \<open>
  C9: when the bound operation, applied to the bound servant, positional and keyword
  arguments in the current environment, returns \<open>v\<close> and leaves the environment \<open>e'\<close>, then
  \<^verbatim>\<open>execute\<close> returns normally, the environment is \<open>e'\<close> (the effect of that one call), and
  the request's Future has been set to \<open>v\<close>.
\<close>

theorem C9_execute_calls_and_sets:
  assumes "method_fn (requests w ! r) (servant (requests w ! r)) (args (requests w ! r))
             (kwargs (requests w ! r)) (env w) = (Inr v, e')"
  shows "MethodRequest_execute r w =
           (Inr (), Future_set_result (future (requests w ! r)) v (w\<lparr>env := e'\<rparr>)) \<and>
         env (snd (MethodRequest_execute r w)) = e' \<and>
         futures (snd (MethodRequest_execute r w)) = (futures w)[future (requests w ! r) := v] \<and>
         (future (requests w ! r) < length (futures w) \<longrightarrow>
            futures (snd (MethodRequest_execute r w)) ! future (requests w ! r) = v)"
  using assms by (simp add: MethodRequest_execute_def Let_def)

text \<open>
  The hypothesis of C9 holds for the first request of the example of the source.
\<close>

theorem C9_execute_calls_and_sets_witness:
  "method_fn (requests example_usage ! 0) (servant (requests example_usage ! 0))
     (args (requests example_usage ! 0)) (kwargs (requests example_usage ! 0)) (env example_usage)
     = (Inr (PyStr ''Transaction T1001 completed for $10000.''),
        \<lparr>stdout = [''Processing transaction T1001 for amount $10000...''], slept = 2\<rparr>) \<and>
   env (snd (MethodRequest_execute 0 example_usage))
     = \<lparr>stdout = [''Processing transaction T1001 for amount $10000...''], slept = 2\<rparr> \<and>
   futures (snd (MethodRequest_execute 0 example_usage))
     = [PyStr ''Transaction T1001 completed for $10000.'', PyNone, PyNone]"
proof -
  have h: "method_fn (requests example_usage ! 0) (servant (requests example_usage ! 0))
     (args (requests example_usage ! 0)) (kwargs (requests example_usage ! 0)) (env example_usage)
     = (Inr (PyStr ''Transaction T1001 completed for $10000.''),
        \<lparr>stdout = [''Processing transaction T1001 for amount $10000...''], slept = 2\<rparr>)"
    by (simp add: example_usage_def submit_sel TransactionProcessor_process_transaction_def
        e0_def str_eval)
  have f: "futures example_usage = [PyNone, PyNone, PyNone]"
    "future (requests example_usage ! 0) = 0"
    by (simp_all add: example_usage_def submit_sel)
  show ?thesis
    using h f C9_execute_calls_and_sets[OF h] by simp
qed

text \<open>
  C10: no operation of the four classes changes an existing MethodRequest: the methods of
  Future, \<^verbatim>\<open>enqueue\<close>, \<^verbatim>\<open>execute\<close> and the worker loop leave the store of requests as it is,
  the constructors and \<^verbatim>\<open>Proxy.process_transaction\<close> only add to it, and so does every
  interleaving \<open>evs\<close> of submissions, worker iterations and reads of Futures.
\<close>

theorem C10_requests_never_mutated:
  "requests (Future_set_result f v w) = requests w \<and>
   requests (Future_get_result t f w) = requests w \<and>
   requests (Future_wakeup t w) = requests w \<and>
   requests (Scheduler_enqueue r w) = requests w \<and>
   requests (snd (MethodRequest_execute r w)) = requests w \<and>
   requests (Scheduler_run_iter w) = requests w \<and>
   requests (Scheduler_run n w) = requests w \<and>
   take (length (requests w)) (requests (snd (Future_init w))) = requests w \<and>
   take (length (requests w)) (requests (snd (MethodRequest_init s m as ks pr w))) = requests w \<and>
   take (length (requests u)) (requests (snd (Proxy_process_transaction p ti am pr u))) = requests u \<and>
   take (length (requests w)) (requests (fold step evs w)) = requests w"
  using submit_sel(3)[of p ti am pr u] fold_step_requests[of w evs]
  by (simp add: Future_init_def MethodRequest_init_def Let_def submit_def)

end
